theory Spec2Isabelle
  imports Main
begin

section \<open>Strings as the connector uses them\<close>

text \<open>
  A JavaScript string is modelled as a list of 8-bit code units (\<open>char list\<close>); the
  functions below are the string methods the connector calls, restricted to that range.
\<close>

definition nl :: char where
  "nl = CHR 0x0A"

text \<open>\<open>String.prototype.toLowerCase\<close>: A-Z and the Latin-1 capitals move up by 32.\<close>

definition toLowerChar :: "char \<Rightarrow> char" where
  "toLowerChar c =
     (let n = (of_char c :: nat)
      in if (65 \<le> n \<and> n \<le> 90) \<or> (192 \<le> n \<and> n \<le> 222 \<and> n \<noteq> 215)
         then char_of (n + 32) else c)"

definition toLowerCase :: "string \<Rightarrow> string" where
  "toLowerCase s = map toLowerChar s"

text \<open>\<open>s.startsWith(p)\<close>\<close>

fun startsWith :: "string \<Rightarrow> string \<Rightarrow> bool" where
  "startsWith s [] = True"
| "startsWith [] (p # ps) = False"
| "startsWith (c # cs) (p # ps) = (c = p \<and> startsWith cs ps)"

text \<open>\<open>s.includes(p)\<close>\<close>

fun str_includes :: "string \<Rightarrow> string \<Rightarrow> bool" where
  "str_includes [] p = (p = [])"
| "str_includes (c # cs) p = (startsWith (c # cs) p \<or> str_includes cs p)"

text \<open>\<open>s.split('\n')\<close>: never empty, one more piece than there are newlines.\<close>

fun split_lines :: "string \<Rightarrow> string list" where
  "split_lines [] = [[]]"
| "split_lines (c # cs) =
     (if c = nl then [] # split_lines cs
      else (c # hd (split_lines cs)) # tl (split_lines cs))"

text \<open>\<open>lines.join('\n')\<close>\<close>

fun join_lines :: "string list \<Rightarrow> string" where
  "join_lines [] = []"
| "join_lines [l] = l"
| "join_lines (l # m # ls) = l @ nl # join_lines (m # ls)"

text \<open>\<open>xs.join(' ')\<close>\<close>

fun join_spaces :: "string list \<Rightarrow> string" where
  "join_spaces [] = []"
| "join_spaces [l] = l"
| "join_spaces (l # m # ls) = l @ CHR '' '' # join_spaces (m # ls)"

text \<open>
  \<open>s.trim()\<close>: the white space and line terminators of ECMAScript below 256 are
  TAB, LF, VT, FF, CR, SP and NBSP.
\<close>

definition isWhiteSpace :: "char \<Rightarrow> bool" where
  "isWhiteSpace c = ((of_char c :: nat) \<in> {9, 10, 11, 12, 13, 32, 160})"

definition trim :: "string \<Rightarrow> string" where
  "trim s = rev (dropWhile isWhiteSpace (rev (dropWhile isWhiteSpace s)))"

section \<open>The npm client: results and error classification\<close>

text \<open>\<open>NpmExecResult\<close>; the two flags are optional fields.\<close>

record exec_result =
  stdout :: string
  stderr :: string
  exitCode :: int
  requiresOtp :: "bool option"
  authFailure :: "bool option"

definition otpPatterns :: "string list" where
  "otpPatterns =
     [''EOTP'', ''one-time password'', ''This operation requires a one-time password'',
      ''--otp=<code>'']"

definition detectOtpRequired :: "string \<Rightarrow> bool" where
  "detectOtpRequired err =
     (let lowerStderr = toLowerCase err
      in list_ex (\<lambda>pattern. str_includes lowerStderr (toLowerCase pattern)) otpPatterns)"

definition authPatterns :: "string list" where
  "authPatterns =
     [''ENEEDAUTH'', ''You must be logged in'', ''authentication error'',
      ''Unable to authenticate'', ''code E401'', ''code E403'', ''401 Unauthorized'',
      ''403 Forbidden'', ''not logged in'', ''npm login'', ''npm adduser'']"

definition detectAuthFailure :: "string \<Rightarrow> bool" where
  "detectAuthFailure err =
     (let lowerStderr = toLowerCase err
      in list_ex (\<lambda>pattern. str_includes lowerStderr (toLowerCase pattern)) authPatterns)"

definition filterNpmWarnings :: "string \<Rightarrow> string" where
  "filterNpmWarnings err =
     trim (join_lines (filter (\<lambda>line. \<not> startsWith line ''npm warn'') (split_lines err)))"

text \<open>
  What \<open>execAsync\<close> rejects with: \<open>err.stdout\<close>, \<open>err.stderr\<close> and \<open>err.code\<close>
  may each be missing, and \<open>String(error)\<close> is the text used when there is no stderr.
\<close>

record exec_failure =
  err_stdout :: "string option"
  err_stderr :: "string option"
  err_code :: "int option"
  err_text :: string

text \<open>The local \<open>stderr\<close> of the catch branch: \<open>err.stderr?.trim() ?? String(error)\<close>.\<close>

definition failure_stderr :: "exec_failure \<Rightarrow> string" where
  "failure_stderr err = (case err_stderr err of Some s \<Rightarrow> trim s | None \<Rightarrow> err_text err)"

definition otpMessage :: string where
  "otpMessage = ''This operation requires a one-time password (OTP).''"

definition authMessage :: string where
  "authMessage =
     ''Authentication failed. Please run '' @ [CHR 0x22] @ ''npm login'' @ [CHR 0x22]
       @ '' and restart the connector.''"

text \<open>The value returned by the catch branch of \<open>execNpm\<close>.\<close>

definition execNpm_catch :: "exec_failure \<Rightarrow> exec_result" where
  "execNpm_catch err =
     (let err_out = failure_stderr err;
          needsOtp = detectOtpRequired err_out;
          authFailed = detectAuthFailure err_out
      in \<lparr> stdout = (case err_stdout err of Some s \<Rightarrow> trim s | None \<Rightarrow> []),
           stderr = (if needsOtp then otpMessage
                     else if authFailed then authMessage
                     else filterNpmWarnings err_out),
           exitCode = (case err_code err of Some c \<Rightarrow> c | None \<Rightarrow> 1),
           requiresOtp = Some needsOtp,
           authFailure = Some authFailed \<rparr>)"

text \<open>The value returned by the try branch of \<open>execNpm\<close>.\<close>

definition execNpm_ok :: "string \<Rightarrow> string \<Rightarrow> exec_result" where
  "execNpm_ok out err =
     \<lparr> stdout = trim out, stderr = filterNpmWarnings err, exitCode = 0,
       requiresOtp = None, authFailure = None \<rparr>"

section \<open>Operations and the connector state\<close>

datatype status = Pending | Approved | Running | Completed | Failed

text \<open>\<open>PendingOperation\<close>; \<open>dependsOn\<close> and \<open>result\<close> are optional fields.\<close>

record operation =
  op_id :: string
  op_type :: string
  params :: "(string \<times> string) list"
  description :: string
  command :: string
  status :: status
  createdAt :: nat
  dependsOn :: "string option"
  result :: "exec_result option"

record session =
  token :: string
  connectedAt :: nat
  npmUser :: "string option"

record connector_state =
  session :: session
  operations :: "operation list"

text \<open>
  A string-valued expression used as a condition (\<open>!op.dependsOn\<close>, \<open>!otp\<close>,
  \<open>!authHeader\<close>): missing and the empty string are both false.
\<close>

definition falsy :: "string option \<Rightarrow> bool" where
  "falsy v = (v = None \<or> v = Some [])"

section \<open>The wave scheduler of /execute\<close>

text \<open>
  The handler's locals together with \<open>state.operations\<close>. \<open>approvedOps\<close> holds
  references into the store, so it is a list of positions of \<open>ops\<close>. Three fields are
  history, not program state: \<open>dispatched\<close> lists the positions handed to
  \<open>executeOperation\<close>, \<open>skipped\<close> the positions failed by the dependency rule, and
  \<open>writes\<close> every assignment to a \<open>status\<close> field as (id, old value, new value).
\<close>

record sched =
  ops :: "operation list"
  results :: "(string \<times> exec_result) list"
  otpRequired :: bool
  completedIds :: "string set"
  failedIds :: "string set"
  dispatched :: "nat list"
  skipped :: "nat list"
  writes :: "(string \<times> status \<times> status) list"

text \<open>
  The command executor: the result \<open>executeOperation(op, otp)\<close> resolves to, for the
  operation at a position of the store.
\<close>

type_synonym executor = "nat \<Rightarrow> operation \<Rightarrow> string option \<Rightarrow> exec_result"

definition approved_positions :: "operation list \<Rightarrow> nat list" where
  "approved_positions os = filter (\<lambda>i. status (os ! i) = Approved) [0..<length os]"

definition skipped_result :: exec_result where
  "skipped_result =
     \<lparr> stdout = [], stderr = ''Skipped: dependency failed'', exitCode = 1,
       requiresOtp = None, authFailure = None \<rparr>"

text \<open>The branch of the filter callback that fails an operation whose dependency failed.\<close>

definition skip_op :: "nat \<Rightarrow> sched \<Rightarrow> sched" where
  "skip_op i s =
     (let op = ops s ! i
      in s\<lparr> ops := (ops s)[i := op\<lparr>status := Failed, result := Some skipped_result\<rparr>],
            failedIds := insert (op_id op) (failedIds s),
            results := results s @ [(op_id op, skipped_result)],
            skipped := skipped s @ [i],
            writes := writes s @ [(op_id op, status op, Failed)] \<rparr>)"

definition keep :: "nat \<Rightarrow> nat list \<times> sched \<Rightarrow> nat list \<times> sched" where
  "keep i p = (i # fst p, snd p)"

text \<open>\<open>approvedOps.filter(...)\<close>: the ready positions, and the state the callback leaves.\<close>

fun readyOps :: "nat list \<Rightarrow> sched \<Rightarrow> nat list \<times> sched" where
  "readyOps [] s = ([], s)"
| "readyOps (i # is) s =
     (let op = ops s ! i
      in if op_id op \<in> completedIds s \<or> op_id op \<in> failedIds s then readyOps is s
         else if falsy (dependsOn op) then keep i (readyOps is s)
         else if the (dependsOn op) \<in> completedIds s then keep i (readyOps is s)
         else if the (dependsOn op) \<in> failedIds s then readyOps is (skip_op i s)
         else readyOps is s)"

text \<open>
  The body of the \<open>map\<close> callback up to its \<open>await\<close>: the operation is marked running
  and handed to the executor.
\<close>

definition dispatch :: "nat \<Rightarrow> sched \<Rightarrow> sched" where
  "dispatch i s =
     (let op = ops s ! i
      in s\<lparr> ops := (ops s)[i := op\<lparr>status := Running\<rparr>],
            dispatched := dispatched s @ [i],
            writes := writes s @ [(op_id op, status op, Running)] \<rparr>)"

text \<open>The rest of the callback, run when the executor's result arrives.\<close>

definition settle :: "executor \<Rightarrow> string option \<Rightarrow> nat \<Rightarrow> sched \<Rightarrow> sched" where
  "settle ex otp i s =
     (let op = ops s ! i;
          r = ex i op otp;
          st = (if exitCode r = 0 then Completed else Failed)
      in s\<lparr> ops := (ops s)[i := op\<lparr>result := Some r, status := st\<rparr>],
            completedIds :=
              (if exitCode r = 0 then insert (op_id op) (completedIds s) else completedIds s),
            failedIds :=
              (if exitCode r = 0 then failedIds s else insert (op_id op) (failedIds s)),
            otpRequired := (if requiresOtp r = Some True then True else otpRequired s),
            results := results s @ [(op_id op, r)],
            writes := writes s @ [(op_id op, status op, st)] \<rparr>)"

text \<open>
  One wave: every ready operation is dispatched before any result is handled
  (\<open>Promise.all\<close>); the results are taken in the order of the ready list.
\<close>

definition run_wave :: "executor \<Rightarrow> string option \<Rightarrow> nat list \<Rightarrow> sched \<Rightarrow> sched" where
  "run_wave ex otp rs s = fold (settle ex otp) rs (fold dispatch rs s)"

text \<open>The approved positions whose id is in neither set.\<close>

definition unresolved :: "nat list \<Rightarrow> sched \<Rightarrow> nat list" where
  "unresolved approvedOps s =
     filter (\<lambda>i. op_id (ops s ! i) \<notin> completedIds s \<union> failedIds s) approvedOps"

section \<open>Facts about the string functions\<close>

lemma startsWith_iff: "startsWith s p \<longleftrightarrow> (\<exists>t. s = p @ t)"
  by (induction s p rule: startsWith.induct) auto


section \<open>Steps of the scheduler keep ids and only add to the sets\<close>

lemma nth_update_field:
  assumes "\<And>x. f (g x) = f x"
  shows "f (xs[i := g (xs ! i)] ! j) = f (xs ! j)"
proof (cases "i < length xs \<and> i = j")
  case True
  then show ?thesis using assms by simp
next
  case False
  then show ?thesis by (cases "i < length xs") (auto simp: list_update_beyond)
qed

lemma skip_op_id [simp]: "op_id (ops (skip_op i s) ! j) = op_id (ops s ! j)"
  unfolding skip_op_def Let_def
  using nth_update_field [of op_id "\<lambda>x. x\<lparr>status := Failed, result := Some skipped_result\<rparr>" "ops s" i j]
  by simp

lemma dispatch_id [simp]: "op_id (ops (dispatch i s) ! j) = op_id (ops s ! j)"
  unfolding dispatch_def Let_def
  using nth_update_field [of op_id "\<lambda>x. x\<lparr>status := Running\<rparr>" "ops s" i j]
  by simp

lemma settle_id [simp]: "op_id (ops (settle ex otp i s) ! j) = op_id (ops s ! j)"
proof -
  have "op_id ((ops s)[i := (\<lambda>x. x\<lparr>result := Some (ex i (ops s ! i) otp),
          status := (if exitCode (ex i (ops s ! i) otp) = 0 then Completed else Failed)\<rparr>) (ops s ! i)] ! j)
        = op_id (ops s ! j)"
    by (rule nth_update_field) simp
  then show ?thesis by (simp add: settle_def Let_def)
qed


section \<open>The filter pass as a fold\<close>

text \<open>
  The three outcomes of the filter callback for one position, and the state it leaves:
  the callback changes the state only when it fails the operation for its dependency.
\<close>

definition must_skip :: "sched \<Rightarrow> nat \<Rightarrow> bool" where
  "must_skip s i =
     (let op = ops s ! i
      in op_id op \<notin> completedIds s \<and> op_id op \<notin> failedIds s \<and> \<not> falsy (dependsOn op)
         \<and> the (dependsOn op) \<notin> completedIds s \<and> the (dependsOn op) \<in> failedIds s)"

definition is_ready :: "sched \<Rightarrow> nat \<Rightarrow> bool" where
  "is_ready s i =
     (let op = ops s ! i
      in op_id op \<notin> completedIds s \<and> op_id op \<notin> failedIds s
         \<and> (falsy (dependsOn op) \<or> the (dependsOn op) \<in> completedIds s))"

definition visit :: "nat \<Rightarrow> sched \<Rightarrow> sched" where
  "visit i s = (if must_skip s i then skip_op i s else s)"

lemma readyOps_Cons:
  "readyOps (i # is) s =
     (if is_ready s i then keep i (readyOps is s) else readyOps is (visit i s))"
  by (auto simp: is_ready_def must_skip_def visit_def Let_def)

lemma ready_visit: "is_ready s i \<Longrightarrow> visit i s = s"
  by (auto simp: is_ready_def must_skip_def visit_def Let_def)

lemma snd_readyOps: "snd (readyOps is s) = fold visit is s"
  by (induction "is" arbitrary: s) (simp_all add: readyOps_Cons keep_def ready_visit del: readyOps.simps(2))

lemma fst_readyOps_Cons:
  "fst (readyOps (i # is) s) =
     (if is_ready s i then i # fst (readyOps is s) else fst (readyOps is (visit i s)))"
  by (simp add: readyOps_Cons keep_def del: readyOps.simps(2))


lemma visit_id [simp]: "op_id (ops (visit i s) ! j) = op_id (ops s ! j)"
  by (simp add: visit_def)

lemma visit_completedIds [simp]: "completedIds (visit i s) = completedIds s"
  by (simp add: visit_def skip_op_def Let_def)

lemma visit_failedIds: "failedIds s \<subseteq> failedIds (visit i s)"
  by (auto simp: visit_def skip_op_def Let_def)

lemma fold_visit_id [simp]: "op_id (ops (fold visit is s) ! j) = op_id (ops s ! j)"
  by (induction "is" arbitrary: s) simp_all

lemma fold_visit_completedIds [simp]: "completedIds (fold visit is s) = completedIds s"
  by (induction "is" arbitrary: s) simp_all

lemma fold_visit_failedIds: "failedIds s \<subseteq> failedIds (fold visit is s)"
proof (induction "is" arbitrary: s)
  case Nil
  then show ?case by simp
next
  case (Cons i "is")
  have "failedIds s \<subseteq> failedIds (visit i s)" by (rule visit_failedIds)
  also have "\<dots> \<subseteq> failedIds (fold visit is (visit i s))" by (rule Cons.IH)
  finally show ?case by simp
qed

lemma ready_unresolved:
  "j \<in> set (fst (readyOps is s)) \<Longrightarrow>
     j \<in> set is \<and> op_id (ops s ! j) \<notin> completedIds s \<and> op_id (ops s ! j) \<notin> failedIds s"
proof (induction "is" arbitrary: s)
  case Nil
  then show ?case by simp
next
  case (Cons i "is")
  show ?case
  proof (cases "is_ready s i")
    case True
    with Cons.prems have "j = i \<or> j \<in> set (fst (readyOps is s))"
      by (simp add: fst_readyOps_Cons del: readyOps.simps(2))
    then show ?thesis
    proof
      assume "j = i"
      with True show ?thesis by (simp add: is_ready_def Let_def)
    next
      assume "j \<in> set (fst (readyOps is s))"
      from Cons.IH [OF this] show ?thesis by simp
    qed
  next
    case False
    with Cons.prems have "j \<in> set (fst (readyOps is (visit i s)))"
      by (simp add: fst_readyOps_Cons del: readyOps.simps(2))
    from Cons.IH [OF this] visit_failedIds [of s i] show ?thesis by auto
  qed
qed

lemma dispatch_sets [simp]:
  "completedIds (dispatch i s) = completedIds s" "failedIds (dispatch i s) = failedIds s"
  by (simp_all add: dispatch_def Let_def)

lemma fold_dispatch_sets [simp]:
  "completedIds (fold dispatch rs s) = completedIds s"
  "failedIds (fold dispatch rs s) = failedIds s"
  by (induction rs arbitrary: s) simp_all

lemma fold_dispatch_id [simp]: "op_id (ops (fold dispatch rs s) ! j) = op_id (ops s ! j)"
  by (induction rs arbitrary: s) simp_all

lemma settle_sets_mono:
  "completedIds s \<subseteq> completedIds (settle ex otp i s)"
  "failedIds s \<subseteq> failedIds (settle ex otp i s)"
  by (auto simp: settle_def Let_def)

lemma settle_resolves:
  "op_id (ops s ! i) \<in> completedIds (settle ex otp i s) \<union> failedIds (settle ex otp i s)"
  by (simp add: settle_def Let_def)

lemma fold_settle_id [simp]:
  "op_id (ops (fold (settle ex otp) rs s) ! j) = op_id (ops s ! j)"
  by (induction rs arbitrary: s) simp_all

lemma fold_settle_sets_mono:
  "completedIds s \<subseteq> completedIds (fold (settle ex otp) rs s)"
  "failedIds s \<subseteq> failedIds (fold (settle ex otp) rs s)"
proof (induction rs arbitrary: s)
  case Nil
  { case 1 show ?case by simp }
  { case 2 show ?case by simp }
next
  case (Cons i rs)
  { case 1
    show ?case using settle_sets_mono(1) [of s ex otp i] Cons.IH(1) [of "settle ex otp i s"]
      by auto }
  { case 2
    show ?case using settle_sets_mono(2) [of s ex otp i] Cons.IH(2) [of "settle ex otp i s"]
      by auto }
qed

lemma fold_settle_resolves:
  "j \<in> set rs \<Longrightarrow>
     op_id (ops s ! j) \<in> completedIds (fold (settle ex otp) rs s)
                        \<union> failedIds (fold (settle ex otp) rs s)"
proof (induction rs arbitrary: s)
  case Nil
  then show ?case by simp
next
  case (Cons i rs)
  show ?case
  proof (cases "j = i")
    case True
    have "op_id (ops s ! i) \<in> completedIds (settle ex otp i s) \<union> failedIds (settle ex otp i s)"
      by (rule settle_resolves)
    with fold_settle_sets_mono [of "settle ex otp i s" ex otp rs] True show ?thesis by auto
  next
    case False
    with Cons.prems have "j \<in> set rs" by simp
    from Cons.IH [OF this, of "settle ex otp i s"] show ?thesis by simp
  qed
qed

lemma run_wave_id [simp]: "op_id (ops (run_wave ex otp rs s) ! j) = op_id (ops s ! j)"
  by (simp add: run_wave_def)

lemma run_wave_sets_mono:
  "completedIds s \<subseteq> completedIds (run_wave ex otp rs s)"
  "failedIds s \<subseteq> failedIds (run_wave ex otp rs s)"
  using fold_settle_sets_mono [of "fold dispatch rs s" ex otp rs] by (simp_all add: run_wave_def)

lemma run_wave_resolves:
  "j \<in> set rs \<Longrightarrow>
     op_id (ops s ! j) \<in> completedIds (run_wave ex otp rs s) \<union> failedIds (run_wave ex otp rs s)"
  using fold_settle_resolves [of j rs "fold dispatch rs s" ex otp] by (simp add: run_wave_def)

lemma filter_shrinks:
  assumes "\<And>x. Q x \<Longrightarrow> P x" and "x \<in> set xs" and "P x" and "\<not> Q x"
  shows "length (filter Q xs) < length (filter P xs)"
proof -
  have e: "filter Q xs = filter Q (filter P xs)"
    using assms(1) by (auto intro: filter_cong)
  have "x \<in> set (filter P xs)" using assms(2,3) by simp
  then have "length (filter Q (filter P xs)) < length (filter P xs)"
    using assms(4) by (rule length_filter_less)
  then show ?thesis by (simp only: e)
qed

lemma wave_progress:
  assumes "readyOps approvedOps s = (rs, s1)" and "rs \<noteq> []"
  shows "length (unresolved approvedOps (run_wave ex otp rs s1))
           < length (unresolved approvedOps s)"
proof -
  from assms(2) obtain j where j: "j \<in> set rs" by (cases rs) auto
  from assms(1) have rs: "rs = fst (readyOps approvedOps s)"
    and s1: "s1 = fold visit approvedOps s"
    using snd_readyOps [of approvedOps s] by simp_all
  from j rs ready_unresolved [of j approvedOps s]
  have jin: "j \<in> set approvedOps"
    and jun: "op_id (ops s ! j) \<notin> completedIds s \<union> failedIds s" by auto
  have mono: "completedIds s \<union> failedIds s
                \<subseteq> completedIds (run_wave ex otp rs s1) \<union> failedIds (run_wave ex otp rs s1)"
    using run_wave_sets_mono [of s1 ex otp rs] fold_visit_failedIds [of s approvedOps]
    by (auto simp: s1)
  have jres: "op_id (ops s ! j)
                \<in> completedIds (run_wave ex otp rs s1) \<union> failedIds (run_wave ex otp rs s1)"
    using run_wave_resolves [OF j, of s1 ex otp] by (simp add: s1)
  show ?thesis
    unfolding unresolved_def
  proof (rule filter_shrinks [where x = j])
    fix x
    assume "op_id (ops (run_wave ex otp rs s1) ! x)
              \<notin> completedIds (run_wave ex otp rs s1) \<union> failedIds (run_wave ex otp rs s1)"
    then show "op_id (ops s ! x) \<notin> completedIds s \<union> failedIds s"
      using mono by (auto simp: s1)
  next
    show "j \<in> set approvedOps" by (rule jin)
  next
    show "op_id (ops s ! j) \<notin> completedIds s \<union> failedIds s" by (rule jun)
  next
    show "\<not> op_id (ops (run_wave ex otp rs s1) ! j)
              \<notin> completedIds (run_wave ex otp rs s1) \<union> failedIds (run_wave ex otp rs s1)"
      using jres by (simp add: s1)
  qed
qed

section \<open>The wave loop\<close>

text \<open>
  \<open>while (true)\<close>: compute the ready set, stop when it is empty or when an OTP is
  needed and none was given, otherwise run the wave and repeat. Each wave takes at least
  one position out of \<open>unresolved\<close>, which is the measure of the termination proof.
\<close>

function wave_loop :: "executor \<Rightarrow> string option \<Rightarrow> nat list \<Rightarrow> sched \<Rightarrow> sched" where
  "wave_loop ex otp approvedOps s =
     (case readyOps approvedOps s of
        (rs, s1) \<Rightarrow>
          if rs = [] then s1
          else if otpRequired s1 \<and> falsy otp then s1
          else wave_loop ex otp approvedOps (run_wave ex otp rs s1))"
  by pat_completeness auto
termination
  apply (relation "measure (\<lambda>(ex, otp, approvedOps, s). length (unresolved approvedOps s))")
   apply simp
  apply (simp add: wave_progress)
  done



section \<open>Running npm for an operation\<close>

text \<open>What \<open>execAsync\<close> does with a command line: it resolves with the two streams or rejects.\<close>

datatype proc_outcome = Exited string string | Rejected exec_failure

text \<open>\<open>execNpm(args, {otp})\<close>, given what the process does with the command line.\<close>

definition execNpm :: "(string \<Rightarrow> proc_outcome) \<Rightarrow> string list \<Rightarrow> string option \<Rightarrow> exec_result" where
  "execNpm run args otp =
     (let cmd = ''npm'' # args @ (if falsy otp then [] else [''--otp'', the otp])
      in case run (join_spaces cmd) of
           Exited out err \<Rightarrow> execNpm_ok out err
         | Rejected e \<Rightarrow> execNpm_catch e)"

text \<open>\<open>params.key\<close>; a missing key joins into the command line as the empty string.\<close>

definition param :: "(string \<times> string) list \<Rightarrow> string \<Rightarrow> string" where
  "param ps k = (case map_of ps k of Some v \<Rightarrow> v | None \<Rightarrow> [])"

text \<open>
  \<open>executeOperation(op, otp)\<close>. The process run for the operation at position \<open>i\<close> of the
  store is \<open>run i\<close>.
\<close>

definition executeOperation :: "(nat \<Rightarrow> string \<Rightarrow> proc_outcome) \<Rightarrow> executor" where
  "executeOperation run i op otp =
     (let p = param (params op); t = op_type op
      in if t = ''org:add-user'' then
           execNpm (run i) [''org'', ''set'', p ''org'', p ''user'', p ''role''] otp
         else if t = ''org:rm-user'' then
           execNpm (run i) [''org'', ''rm'', p ''org'', p ''user''] otp
         else if t = ''team:create'' then
           execNpm (run i) [''team'', ''create'', p ''scopeTeam''] otp
         else if t = ''team:destroy'' then
           execNpm (run i) [''team'', ''destroy'', p ''scopeTeam''] otp
         else if t = ''team:add-user'' then
           execNpm (run i) [''team'', ''add'', p ''scopeTeam'', p ''user''] otp
         else if t = ''team:rm-user'' then
           execNpm (run i) [''team'', ''rm'', p ''scopeTeam'', p ''user''] otp
         else if t = ''access:grant'' then
           execNpm (run i) [''access'', ''grant'', p ''permission'', p ''scopeTeam'', p ''pkg''] otp
         else if t = ''access:revoke'' then
           execNpm (run i) [''access'', ''revoke'', p ''scopeTeam'', p ''pkg''] otp
         else if t = ''owner:add'' then
           execNpm (run i) [''owner'', ''add'', p ''user'', p ''pkg''] otp
         else if t = ''owner:rm'' then
           execNpm (run i) [''owner'', ''rm'', p ''user'', p ''pkg''] otp
         else \<lparr> stdout = [], stderr = ''Unknown operation type: '' @ t, exitCode = 1,
                requiresOtp = None, authFailure = None \<rparr>)"

section \<open>The HTTP surface\<close>

text \<open>\<open>s.replace(pat, rep)\<close> with a string pattern: the first occurrence only.\<close>

fun replace_first :: "string \<Rightarrow> string \<Rightarrow> string \<Rightarrow> string" where
  "replace_first pat rep [] = (if pat = [] then rep else [])"
| "replace_first pat rep (c # cs) =
     (if startsWith (c # cs) pat then rep @ drop (length pat) (c # cs)
      else c # replace_first pat rep cs)"

definition validateToken :: "string \<Rightarrow> string option \<Rightarrow> bool" where
  "validateToken expectedToken authHeader =
     (if falsy authHeader then False
      else replace_first ''Bearer '' [] (the authHeader) = expectedToken)"

text \<open>The payload of \<open>{success: true, data}\<close>, one constructor per endpoint.\<close>

datatype payload =
    ConnectData "string option" nat
  | StateData "string option" "operation list"
  | OperationData operation
  | BatchData "operation list"
  | ApprovedCount nat
  | ExecuteData "(string \<times> exec_result) list" bool bool
  | NoData
  | RemovedCount nat
  | JsonData string

text \<open>
  A handler returns the success envelope, throws an HTTP error (\<open>createError\<close>) or
  returns \<open>{success: false, error}\<close>.
\<close>

datatype response = Success payload | HttpError nat string | Failure string

text \<open>
  What a handler leaves: its response, the connector state, and the assignments to
  \<open>status\<close> fields it made, as (id, old value, new value).
\<close>

type_synonym outcome = "response \<times> connector_state \<times> (string \<times> status \<times> status) list"

text \<open>The state \<open>createConnectorApp(expectedToken)\<close> starts with.\<close>

definition createConnectorApp :: "string \<Rightarrow> connector_state" where
  "createConnectorApp expectedToken =
     \<lparr> session = \<lparr> token = expectedToken, connectedAt = 0, npmUser = None \<rparr>,
       operations = [] \<rparr>"

text \<open>
  \<open>POST /connect\<close>: \<open>bodyToken\<close> is \<open>body?.token\<close>, \<open>now\<close> is \<open>Date.now()\<close> and
  \<open>user\<close> is what \<open>getNpmUser()\<close> resolves to.
\<close>

definition post_connect :: "string \<Rightarrow> string option \<Rightarrow> nat \<Rightarrow> string option \<Rightarrow> connector_state \<Rightarrow> outcome" where
  "post_connect expectedToken bodyToken now user st =
     (if bodyToken \<noteq> Some expectedToken then (HttpError 401 ''Invalid token'', st, [])
      else (Success (ConnectData user now),
            st\<lparr>session := (session st)\<lparr>connectedAt := now, npmUser := user\<rparr>\<rparr>, []))"

definition get_state :: "string \<Rightarrow> string option \<Rightarrow> connector_state \<Rightarrow> outcome" where
  "get_state expectedToken auth st =
     (if \<not> validateToken expectedToken auth then (HttpError 401 ''Unauthorized'', st, [])
      else (Success (StateData (npmUser (session st)) (operations st)), st, []))"

text \<open>The fields a create request reads from the body.\<close>

record op_body =
  body_type :: string
  body_params :: "(string \<times> string) list"
  body_description :: string
  body_command :: string

text \<open>
  The object literal of the two create handlers; \<open>newId\<close> is \<open>generateOperationId()\<close>
  and \<open>now\<close> is \<open>Date.now()\<close>. Neither handler sets \<open>dependsOn\<close>.
\<close>

definition new_operation :: "op_body \<Rightarrow> string \<Rightarrow> nat \<Rightarrow> operation" where
  "new_operation b newId now =
     \<lparr> op_id = newId, op_type = body_type b, params = body_params b,
       description = body_description b, command = body_command b, status = Pending,
       createdAt = now, dependsOn = None, result = None \<rparr>"

definition post_operations :: "string \<Rightarrow> string option \<Rightarrow> op_body \<Rightarrow> string \<Rightarrow> nat \<Rightarrow> connector_state \<Rightarrow> outcome" where
  "post_operations expectedToken auth b newId now st =
     (if \<not> validateToken expectedToken auth then (HttpError 401 ''Unauthorized'', st, [])
      else let operation = new_operation b newId now
           in (Success (OperationData operation),
               st\<lparr>operations := operations st @ [operation]\<rparr>, []))"

definition post_operations_batch :: "string \<Rightarrow> string option \<Rightarrow> (op_body \<times> string \<times> nat) list \<Rightarrow> connector_state \<Rightarrow> outcome" where
  "post_operations_batch expectedToken auth items st =
     (if \<not> validateToken expectedToken auth then (HttpError 401 ''Unauthorized'', st, [])
      else let created = map (\<lambda>(b, newId, now). new_operation b newId now) items
           in (Success (BatchData created), st\<lparr>operations := operations st @ created\<rparr>, []))"

text \<open>\<open>xs.findIndex(p)\<close>, with \<open>None\<close> for -1; \<open>xs.find(p)\<close> is the element there.\<close>

fun findIndex :: "('a \<Rightarrow> bool) \<Rightarrow> 'a list \<Rightarrow> nat option" where
  "findIndex p [] = None"
| "findIndex p (x # xs) = (if p x then Some 0 else map_option Suc (findIndex p xs))"

text \<open>
  \<open>op.id === id\<close> where \<open>id\<close> is \<open>query.id\<close>: a missing query parameter equals no id.
\<close>

definition has_id :: "string option \<Rightarrow> operation \<Rightarrow> bool" where
  "has_id ident op = (ident = Some (op_id op))"

definition post_approve :: "string \<Rightarrow> string option \<Rightarrow> string option \<Rightarrow> connector_state \<Rightarrow> outcome" where
  "post_approve expectedToken auth ident st =
     (if \<not> validateToken expectedToken auth then (HttpError 401 ''Unauthorized'', st, [])
      else case findIndex (has_id ident) (operations st) of
             None \<Rightarrow> (HttpError 404 ''Operation not found'', st, [])
           | Some i \<Rightarrow>
               let operation = operations st ! i
               in if status operation \<noteq> Pending
                  then (HttpError 400 ''Operation is not pending'', st, [])
                  else (Success (OperationData (operation\<lparr>status := Approved\<rparr>)),
                        st\<lparr>operations := (operations st)[i := operation\<lparr>status := Approved\<rparr>]\<rparr>,
                        [(op_id operation, status operation, Approved)]))"

definition post_approve_all :: "string \<Rightarrow> string option \<Rightarrow> connector_state \<Rightarrow> outcome" where
  "post_approve_all expectedToken auth st =
     (if \<not> validateToken expectedToken auth then (HttpError 401 ''Unauthorized'', st, [])
      else let pendingOps = filter (\<lambda>op. status op = Pending) (operations st)
           in (Success (ApprovedCount (length pendingOps)),
               st\<lparr>operations :=
                    map (\<lambda>op. if status op = Pending then op\<lparr>status := Approved\<rparr> else op)
                      (operations st)\<rparr>,
               map (\<lambda>op. (op_id op, status op, Approved)) pendingOps))"

definition post_retry :: "string \<Rightarrow> string option \<Rightarrow> string option \<Rightarrow> connector_state \<Rightarrow> outcome" where
  "post_retry expectedToken auth ident st =
     (if \<not> validateToken expectedToken auth then (HttpError 401 ''Unauthorized'', st, [])
      else case findIndex (has_id ident) (operations st) of
             None \<Rightarrow> (HttpError 404 ''Operation not found'', st, [])
           | Some i \<Rightarrow>
               let operation = operations st ! i
               in if status operation \<noteq> Failed
                  then (HttpError 400 ''Only failed operations can be retried'', st, [])
                  else (Success (OperationData (operation\<lparr>status := Approved, result := None\<rparr>)),
                        st\<lparr>operations :=
                             (operations st)[i := operation\<lparr>status := Approved, result := None\<rparr>]\<rparr>,
                        [(op_id operation, status operation, Approved)]))"

text \<open>The locals of the /execute handler before its loop.\<close>

definition init_sched :: "operation list \<Rightarrow> sched" where
  "init_sched os =
     \<lparr> ops = os, results = [], otpRequired = False, completedIds = {}, failedIds = {},
       dispatched = [], skipped = [], writes = [] \<rparr>"

text \<open>The scheduler state when the loop of /execute has ended.\<close>

definition execute_call :: "executor \<Rightarrow> string option \<Rightarrow> operation list \<Rightarrow> sched" where
  "execute_call ex otp os = wave_loop ex otp (approved_positions os) (init_sched os)"

definition post_execute :: "string \<Rightarrow> string option \<Rightarrow> string option \<Rightarrow> (nat \<Rightarrow> string \<Rightarrow> proc_outcome) \<Rightarrow> connector_state \<Rightarrow> outcome" where
  "post_execute expectedToken auth otp run st =
     (if \<not> validateToken expectedToken auth then (HttpError 401 ''Unauthorized'', st, [])
      else let s = execute_call (executeOperation run) otp (operations st);
               authFailed = list_ex (\<lambda>r. authFailure (snd r) = Some True) (results s)
           in (Success (ExecuteData (results s) (otpRequired s) authFailed),
               st\<lparr>operations := ops s\<rparr>, writes s))"

definition delete_operation :: "string \<Rightarrow> string option \<Rightarrow> string option \<Rightarrow> connector_state \<Rightarrow> outcome" where
  "delete_operation expectedToken auth ident st =
     (if \<not> validateToken expectedToken auth then (HttpError 401 ''Unauthorized'', st, [])
      else case findIndex (has_id ident) (operations st) of
             None \<Rightarrow> (HttpError 404 ''Operation not found'', st, [])
           | Some i \<Rightarrow>
               if status (operations st ! i) = Running
               then (HttpError 400 ''Cannot cancel running operation'', st, [])
               else (Success NoData,
                     st\<lparr>operations := take i (operations st) @ drop (Suc i) (operations st)\<rparr>,
                     []))"

definition delete_all :: "string \<Rightarrow> string option \<Rightarrow> connector_state \<Rightarrow> outcome" where
  "delete_all expectedToken auth st =
     (if \<not> validateToken expectedToken auth then (HttpError 401 ''Unauthorized'', st, [])
      else let removed = length (filter (\<lambda>op. status op \<noteq> Running) (operations st))
           in (Success (RemovedCount removed),
               st\<lparr>operations := filter (\<lambda>op. status op = Running) (operations st)\<rparr>, []))"

text \<open>
  The four read-only list endpoints share one shape: the route parameter \<open>name\<close>, the
  npm arguments, whether \<open>JSON.parse\<close> accepts the output, and three messages.
\<close>

definition list_endpoint :: "string \<Rightarrow> string option \<Rightarrow> string option \<Rightarrow> (string \<Rightarrow> string list) \<Rightarrow> (string \<Rightarrow> proc_outcome) \<Rightarrow> bool \<Rightarrow> string \<Rightarrow> string \<Rightarrow> string \<Rightarrow> connector_state \<Rightarrow> outcome" where
  "list_endpoint expectedToken auth name args run parses missing failed unparsed st =
     (if \<not> validateToken expectedToken auth then (HttpError 401 ''Unauthorized'', st, [])
      else if falsy name then (HttpError 400 missing, st, [])
      else let r = execNpm run (args (the name)) None
           in if exitCode r \<noteq> 0
              then (Failure (if stderr r = [] then failed else stderr r), st, [])
              else if parses then (Success (JsonData (stdout r)), st, [])
              else (Failure unparsed, st, []))"

datatype request =
    Connect "string option" nat "string option"
  | GetState "string option"
  | PostOperations "string option" op_body string nat
  | PostOperationsBatch "string option" "(op_body \<times> string \<times> nat) list"
  | PostApprove "string option" "string option"
  | PostApproveAll "string option"
  | PostRetry "string option" "string option"
  | PostExecute "string option" "string option" "nat \<Rightarrow> string \<Rightarrow> proc_outcome"
  | DeleteOperation "string option" "string option"
  | DeleteAll "string option"
  | GetOrgUsers "string option" "string option" "string \<Rightarrow> proc_outcome" bool
  | GetOrgTeams "string option" "string option" "string \<Rightarrow> proc_outcome" bool
  | GetTeamUsers "string option" "string option" "string \<Rightarrow> proc_outcome" bool
  | GetCollaborators "string option" "string option" "string \<Rightarrow> proc_outcome" bool

text \<open>The router: one handler per endpoint.\<close>

fun handle_request :: "string \<Rightarrow> request \<Rightarrow> connector_state \<Rightarrow> outcome" where
  "handle_request tok (Connect bodyToken now user) st = post_connect tok bodyToken now user st"
| "handle_request tok (GetState auth) st = get_state tok auth st"
| "handle_request tok (PostOperations auth b newId now) st = post_operations tok auth b newId now st"
| "handle_request tok (PostOperationsBatch auth items) st = post_operations_batch tok auth items st"
| "handle_request tok (PostApprove auth ident) st = post_approve tok auth ident st"
| "handle_request tok (PostApproveAll auth) st = post_approve_all tok auth st"
| "handle_request tok (PostRetry auth ident) st = post_retry tok auth ident st"
| "handle_request tok (PostExecute auth otp run) st = post_execute tok auth otp run st"
| "handle_request tok (DeleteOperation auth ident) st = delete_operation tok auth ident st"
| "handle_request tok (DeleteAll auth) st = delete_all tok auth st"
| "handle_request tok (GetOrgUsers auth org run parses) st =
     list_endpoint tok auth org (\<lambda>n. [''org'', ''ls'', n, ''--json'']) run parses
       ''Org name required'' ''Failed to list org users'' ''Failed to parse org users'' st"
| "handle_request tok (GetOrgTeams auth org run parses) st =
     list_endpoint tok auth org (\<lambda>n. [''team'', ''ls'', n, ''--json'']) run parses
       ''Org name required'' ''Failed to list teams'' ''Failed to parse teams'' st"
| "handle_request tok (GetTeamUsers auth scopeTeam run parses) st =
     list_endpoint tok auth scopeTeam (\<lambda>n. [''team'', ''ls'', n, ''--json'']) run parses
       ''Team name required'' ''Failed to list team users'' ''Failed to parse team users'' st"
| "handle_request tok (GetCollaborators auth pkg run parses) st =
     list_endpoint tok auth pkg (\<lambda>n. [''access'', ''list'', ''collaborators'', n, ''--json''])
       run parses ''Package name required'' ''Failed to list collaborators''
       ''Failed to parse collaborators'' st"

text \<open>The \<open>Authorization\<close> header of a request to a protected endpoint; /connect has none.\<close>

fun auth_header :: "request \<Rightarrow> string option option" where
  "auth_header (Connect bodyToken now user) = None"
| "auth_header (GetState auth) = Some auth"
| "auth_header (PostOperations auth b newId now) = Some auth"
| "auth_header (PostOperationsBatch auth items) = Some auth"
| "auth_header (PostApprove auth ident) = Some auth"
| "auth_header (PostApproveAll auth) = Some auth"
| "auth_header (PostRetry auth ident) = Some auth"
| "auth_header (PostExecute auth otp run) = Some auth"
| "auth_header (DeleteOperation auth ident) = Some auth"
| "auth_header (DeleteAll auth) = Some auth"
| "auth_header (GetOrgUsers auth org run parses) = Some auth"
| "auth_header (GetOrgTeams auth org run parses) = Some auth"
| "auth_header (GetTeamUsers auth scopeTeam run parses) = Some auth"
| "auth_header (GetCollaborators auth pkg run parses) = Some auth"

text \<open>
  A sequence of requests, each handled to its end before the next: the final state and
  all assignments to \<open>status\<close> fields, in order.
\<close>

fun run_requests :: "string \<Rightarrow> request list \<Rightarrow> connector_state \<Rightarrow> connector_state \<times> (string \<times> status \<times> status) list" where
  "run_requests tok [] st = (st, [])"
| "run_requests tok (r # rs) st =
     (case handle_request tok r st of
        (resp, st1, ws) \<Rightarrow> (case run_requests tok rs st1 of (st2, ws2) \<Rightarrow> (st2, ws @ ws2)))"

text \<open>The edges of the operation state machine.\<close>

definition status_edges :: "(status \<times> status) set" where
  "status_edges =
     {(Pending, Approved), (Approved, Running), (Running, Completed), (Running, Failed),
      (Failed, Approved)}"


section \<open>Example data\<close>

text \<open>An operation and a connector state for the concrete instances below.\<close>

definition example_op :: "string \<Rightarrow> status \<Rightarrow> string option \<Rightarrow> operation" where
  "example_op ident st dep =
     \<lparr> op_id = ident, op_type = ''team:create'', params = [(''scopeTeam'', ''@acme:dev'')],
       description = ''Create team'', command = ''npm team create @acme:dev'', status = st,
       createdAt = 0, dependsOn = dep, result = None \<rparr>"

definition example_state :: "operation list \<Rightarrow> connector_state" where
  "example_state os = (createConnectorApp ''s3cret'')\<lparr>operations := os\<rparr>"

definition ok_result :: exec_result where
  "ok_result = \<lparr> stdout = ''ok'', stderr = [], exitCode = 0, requiresOtp = None, authFailure = None \<rparr>"

definition otp_result :: exec_result where
  "otp_result = \<lparr> stdout = [], stderr = otpMessage, exitCode = 1, requiresOtp = Some True,
     authFailure = Some False \<rparr>"

definition error_result :: exec_result where
  "error_result = \<lparr> stdout = [], stderr = ''boom'', exitCode = 1, requiresOtp = Some False,
     authFailure = Some False \<rparr>"

text \<open>An executor that answers by position: the listed positions get the listed results, every other one succeeds.\<close>

definition example_executor :: "(nat \<times> exec_result) list \<Rightarrow> executor" where
  "example_executor table i op otp = (case map_of table i of Some r \<Rightarrow> r | None \<Rightarrow> ok_result)"

definition example_body :: op_body where
  "example_body =
     \<lparr> body_type = ''team:create'', body_params = [(''scopeTeam'', ''@acme:dev'')],
       body_description = ''Create team'', body_command = ''npm team create @acme:dev'' \<rparr>"

definition npm_otp_failure :: "nat \<Rightarrow> string \<Rightarrow> proc_outcome" where
  "npm_otp_failure i cmd =
     Rejected \<lparr> err_stdout = None, err_stderr = Some ''EOTP'',
       err_code = Some 1, err_text = [] \<rparr>"

definition npm_success :: "nat \<Rightarrow> string \<Rightarrow> proc_outcome" where
  "npm_success i cmd = Exited ''ok'' []"


section \<open>Looking an operation up by id\<close>

lemma findIndex_None: "findIndex p xs = None \<longleftrightarrow> (\<forall>x \<in> set xs. \<not> p x)"
  by (induction xs) auto

lemma findIndex_Some:
  "findIndex p xs = Some i \<Longrightarrow> i < length xs \<and> p (xs ! i) \<and> (\<forall>j < i. \<not> p (xs ! j))"
proof (induction xs arbitrary: i)
  case Nil
  then show ?case by simp
next
  case (Cons x xs)
  show ?case
  proof (cases "p x")
    case True
    with Cons.prems show ?thesis by simp
  next
    case False
    with Cons.prems obtain k where k: "findIndex p xs = Some k" "i = Suc k" by auto
    from Cons.IH [OF k(1)] False k(2) show ?thesis by (auto simp: less_Suc_eq_0_disj)
  qed
qed

lemma findIndex_unique:
  assumes "distinct (map op_id xs)" and "i < length xs" and "op_id (xs ! i) = k"
  shows "findIndex (has_id (Some k)) xs = Some i"
proof -
  have "\<exists>x \<in> set xs. has_id (Some k) x"
    using assms(2,3) by (auto simp: has_id_def intro: bexI [of _ "xs ! i"])
  then obtain j where j: "findIndex (has_id (Some k)) xs = Some j"
    using findIndex_None [of "has_id (Some k)" xs]
    by (cases "findIndex (has_id (Some k)) xs") auto
  from findIndex_Some [OF j] have jl: "j < length xs" and jk: "op_id (xs ! j) = k"
    by (auto simp: has_id_def)
  have "(map op_id xs ! i = map op_id xs ! j) = (i = j)"
    using assms(1,2) jl by (intro nth_eq_iff_index_eq) simp_all
  with assms(2,3) jl jk have "i = j" by simp
  with j show ?thesis by simp
qed

section \<open>The invariant of the scheduler\<close>

text \<open>
  The definitions of this section are not part of the program: they say what the
  scheduler state looks like between two steps of a call that started on the store
  \<open>os\<close>. \<open>P\<close> is the set of positions dispatched in the current wave whose result has
  not been handled yet.
\<close>

text \<open>The result the executor gives for position \<open>j\<close>: it is called on the running operation.\<close>

definition outcome_of :: "executor \<Rightarrow> string option \<Rightarrow> operation list \<Rightarrow> nat \<Rightarrow> exec_result" where
  "outcome_of ex otp os j = ex j ((os ! j)\<lparr>status := Running\<rparr>) otp"

definition expected_op :: "executor \<Rightarrow> string option \<Rightarrow> operation list \<Rightarrow> nat set \<Rightarrow> sched \<Rightarrow> nat \<Rightarrow> operation" where
  "expected_op ex otp os P s j =
     (if j \<in> set (skipped s) then (os ! j)\<lparr>status := Failed, result := Some skipped_result\<rparr>
      else if j \<in> P then (os ! j)\<lparr>status := Running\<rparr>
      else if j \<in> set (dispatched s) then
        (os ! j)\<lparr>status := (if exitCode (outcome_of ex otp os j) = 0 then Completed else Failed),
                 result := Some (outcome_of ex otp os j)\<rparr>
      else os ! j)"

definition settled :: "executor \<Rightarrow> string option \<Rightarrow> operation list \<Rightarrow> nat set \<Rightarrow> sched \<Rightarrow> nat set" where
  "settled ex otp os P s = set (dispatched s) - P"

definition legal_write :: "operation list \<Rightarrow> string \<times> status \<times> status \<Rightarrow> bool" where
  "legal_write os w \<longleftrightarrow>
     snd w \<in> {(Approved, Running), (Running, Completed), (Running, Failed)}
     \<or> (snd w = (Approved, Failed) \<and> (\<exists>op \<in> set os. \<not> falsy (dependsOn op)))"

definition sched_inv :: "executor \<Rightarrow> string option \<Rightarrow> operation list \<Rightarrow> nat set \<Rightarrow> sched \<Rightarrow> bool" where
  "sched_inv ex otp os P s \<longleftrightarrow>
     length (ops s) = length os
   \<and> set (dispatched s) \<subseteq> set (approved_positions os)
   \<and> set (skipped s) \<subseteq> set (approved_positions os)
   \<and> set (dispatched s) \<inter> set (skipped s) = {}
   \<and> P \<subseteq> set (dispatched s)
   \<and> (\<forall>j < length os. ops s ! j = expected_op ex otp os P s j)
   \<and> completedIds s =
       (\<lambda>j. op_id (os ! j)) ` {j \<in> set (dispatched s) - P. exitCode (outcome_of ex otp os j) = 0}
   \<and> failedIds s =
       (\<lambda>j. op_id (os ! j)) `
         ({j \<in> set (dispatched s) - P. exitCode (outcome_of ex otp os j) \<noteq> 0} \<union> set (skipped s))
   \<and> (\<forall>j \<in> set (dispatched s).
         falsy (dependsOn (os ! j)) \<or> the (dependsOn (os ! j)) \<in> completedIds s)
   \<and> (\<forall>j \<in> set (skipped s). \<not> falsy (dependsOn (os ! j)))
   \<and> (otpRequired s \<longleftrightarrow>
        (\<exists>j \<in> set (dispatched s) - P. requiresOtp (outcome_of ex otp os j) = Some True))
   \<and> set (results s) =
       (\<lambda>j. (op_id (os ! j), outcome_of ex otp os j)) ` (set (dispatched s) - P)
       \<union> (\<lambda>j. (op_id (os ! j), skipped_result)) ` set (skipped s)
   \<and> (\<forall>w \<in> set (writes s). legal_write os w)"

lemma approved_positions_iff:
  "j \<in> set (approved_positions os) \<longleftrightarrow> j < length os \<and> status (os ! j) = Approved"
  by (auto simp: approved_positions_def)

lemma expected_op_fields [simp]:
  "op_id (expected_op ex otp os P s j) = op_id (os ! j)"
  "dependsOn (expected_op ex otp os P s j) = dependsOn (os ! j)"
  by (simp_all add: expected_op_def)

lemma inv_id: "sched_inv ex otp os P s \<Longrightarrow> j < length os \<Longrightarrow> op_id (ops s ! j) = op_id (os ! j)"
  by (simp add: sched_inv_def)

lemma inv_dep: "sched_inv ex otp os P s \<Longrightarrow> j < length os \<Longrightarrow> dependsOn (ops s ! j) = dependsOn (os ! j)"
  by (simp add: sched_inv_def)

text \<open>A position whose id is in neither set has not been touched.\<close>

lemma inv_unresolved_untouched:
  assumes "sched_inv ex otp os {} s" and "j < length os"
    and "op_id (ops s ! j) \<notin> completedIds s" and "op_id (ops s ! j) \<notin> failedIds s"
  shows "j \<notin> set (dispatched s)" and "j \<notin> set (skipped s)" and "ops s ! j = os ! j"
proof -
  have i: "op_id (ops s ! j) = op_id (os ! j)" using assms(1,2) by (rule inv_id)
  from assms(1) have C: "completedIds s =
       (\<lambda>j. op_id (os ! j)) ` {j \<in> set (dispatched s) - {}. exitCode (outcome_of ex otp os j) = 0}"
    and F: "failedIds s = (\<lambda>j. op_id (os ! j)) `
         ({j \<in> set (dispatched s) - {}. exitCode (outcome_of ex otp os j) \<noteq> 0} \<union> set (skipped s))"
    by (simp_all add: sched_inv_def)
  show d: "j \<notin> set (dispatched s)"
  proof
    assume "j \<in> set (dispatched s)"
    then have "op_id (os ! j) \<in> completedIds s \<union> failedIds s"
      unfolding C F by (cases "exitCode (outcome_of ex otp os j) = 0") auto
    with assms(3,4) i show False by simp
  qed
  show k: "j \<notin> set (skipped s)"
  proof
    assume "j \<in> set (skipped s)"
    then have "op_id (os ! j) \<in> failedIds s" unfolding F by auto
    with assms(4) i show False by simp
  qed
  from assms(1,2) have "ops s ! j = expected_op ex otp os {} s j" by (simp add: sched_inv_def)
  with d k show "ops s ! j = os ! j" by (simp add: expected_op_def)
qed

lemma skip_op_fields [simp]:
  "ops (skip_op i s) = (ops s)[i := (ops s ! i)\<lparr>status := Failed, result := Some skipped_result\<rparr>]"
  "failedIds (skip_op i s) = insert (op_id (ops s ! i)) (failedIds s)"
  "completedIds (skip_op i s) = completedIds s"
  "results (skip_op i s) = results s @ [(op_id (ops s ! i), skipped_result)]"
  "skipped (skip_op i s) = skipped s @ [i]"
  "dispatched (skip_op i s) = dispatched s"
  "otpRequired (skip_op i s) = otpRequired s"
  "writes (skip_op i s) = writes s @ [(op_id (ops s ! i), status (ops s ! i), Failed)]"
  by (simp_all add: skip_op_def Let_def)

lemma sched_invI:
  assumes "length (ops s) = length os"
    and "set (dispatched s) \<subseteq> set (approved_positions os)"
    and "set (skipped s) \<subseteq> set (approved_positions os)"
    and "set (dispatched s) \<inter> set (skipped s) = {}"
    and "P \<subseteq> set (dispatched s)"
    and "\<And>j. j < length os \<Longrightarrow> ops s ! j = expected_op ex otp os P s j"
    and "completedIds s =
       (\<lambda>j. op_id (os ! j)) ` {j \<in> set (dispatched s) - P. exitCode (outcome_of ex otp os j) = 0}"
    and "failedIds s =
       (\<lambda>j. op_id (os ! j)) `
         ({j \<in> set (dispatched s) - P. exitCode (outcome_of ex otp os j) \<noteq> 0} \<union> set (skipped s))"
    and "\<And>j. j \<in> set (dispatched s) \<Longrightarrow>
         falsy (dependsOn (os ! j)) \<or> the (dependsOn (os ! j)) \<in> completedIds s"
    and "\<And>j. j \<in> set (skipped s) \<Longrightarrow> \<not> falsy (dependsOn (os ! j))"
    and "otpRequired s \<longleftrightarrow>
        (\<exists>j \<in> set (dispatched s) - P. requiresOtp (outcome_of ex otp os j) = Some True)"
    and "set (results s) =
       (\<lambda>j. (op_id (os ! j), outcome_of ex otp os j)) ` (set (dispatched s) - P)
       \<union> (\<lambda>j. (op_id (os ! j), skipped_result)) ` set (skipped s)"
    and "\<And>w. w \<in> set (writes s) \<Longrightarrow> legal_write os w"
  shows "sched_inv ex otp os P s"
  unfolding sched_inv_def
  by (intro conjI allI impI ballI) (fact assms | rule assms, assumption)+

lemma sched_inv_conj:
  "sched_inv ex otp os P s \<Longrightarrow>
     length (ops s) = length os
   \<and> set (dispatched s) \<subseteq> set (approved_positions os)
   \<and> set (skipped s) \<subseteq> set (approved_positions os)
   \<and> set (dispatched s) \<inter> set (skipped s) = {}
   \<and> P \<subseteq> set (dispatched s)
   \<and> (\<forall>j < length os. ops s ! j = expected_op ex otp os P s j)
   \<and> completedIds s =
       (\<lambda>j. op_id (os ! j)) ` {j \<in> set (dispatched s) - P. exitCode (outcome_of ex otp os j) = 0}
   \<and> failedIds s =
       (\<lambda>j. op_id (os ! j)) `
         ({j \<in> set (dispatched s) - P. exitCode (outcome_of ex otp os j) \<noteq> 0} \<union> set (skipped s))
   \<and> (\<forall>j \<in> set (dispatched s).
         falsy (dependsOn (os ! j)) \<or> the (dependsOn (os ! j)) \<in> completedIds s)
   \<and> (\<forall>j \<in> set (skipped s). \<not> falsy (dependsOn (os ! j)))
   \<and> (otpRequired s \<longleftrightarrow>
        (\<exists>j \<in> set (dispatched s) - P. requiresOtp (outcome_of ex otp os j) = Some True))
   \<and> set (results s) =
       (\<lambda>j. (op_id (os ! j), outcome_of ex otp os j)) ` (set (dispatched s) - P)
       \<union> (\<lambda>j. (op_id (os ! j), skipped_result)) ` set (skipped s)
   \<and> (\<forall>w \<in> set (writes s). legal_write os w)"
  unfolding sched_inv_def by assumption

lemmas sched_invD =
  sched_inv_conj [THEN conjunct1, rule_format]
  sched_inv_conj [THEN conjunct2, THEN conjunct1, rule_format]
  sched_inv_conj [THEN conjunct2, THEN conjunct2, THEN conjunct1, rule_format]
  sched_inv_conj [THEN conjunct2, THEN conjunct2, THEN conjunct2, THEN conjunct1, rule_format]
  sched_inv_conj [THEN conjunct2, THEN conjunct2, THEN conjunct2, THEN conjunct2, THEN conjunct1, rule_format]
  sched_inv_conj [THEN conjunct2, THEN conjunct2, THEN conjunct2, THEN conjunct2, THEN conjunct2, THEN conjunct1, rule_format]
  sched_inv_conj [THEN conjunct2, THEN conjunct2, THEN conjunct2, THEN conjunct2, THEN conjunct2, THEN conjunct2, THEN conjunct1, rule_format]
  sched_inv_conj [THEN conjunct2, THEN conjunct2, THEN conjunct2, THEN conjunct2, THEN conjunct2, THEN conjunct2, THEN conjunct2, THEN conjunct1, rule_format]
  sched_inv_conj [THEN conjunct2, THEN conjunct2, THEN conjunct2, THEN conjunct2, THEN conjunct2, THEN conjunct2, THEN conjunct2, THEN conjunct2, THEN conjunct1, rule_format]
  sched_inv_conj [THEN conjunct2, THEN conjunct2, THEN conjunct2, THEN conjunct2, THEN conjunct2, THEN conjunct2, THEN conjunct2, THEN conjunct2, THEN conjunct2, THEN conjunct1, rule_format]
  sched_inv_conj [THEN conjunct2, THEN conjunct2, THEN conjunct2, THEN conjunct2, THEN conjunct2, THEN conjunct2, THEN conjunct2, THEN conjunct2, THEN conjunct2, THEN conjunct2, THEN conjunct1, rule_format]
  sched_inv_conj [THEN conjunct2, THEN conjunct2, THEN conjunct2, THEN conjunct2, THEN conjunct2, THEN conjunct2, THEN conjunct2, THEN conjunct2, THEN conjunct2, THEN conjunct2, THEN conjunct2, THEN conjunct1, rule_format]
  sched_inv_conj [THEN conjunct2, THEN conjunct2, THEN conjunct2, THEN conjunct2, THEN conjunct2, THEN conjunct2, THEN conjunct2, THEN conjunct2, THEN conjunct2, THEN conjunct2, THEN conjunct2, THEN conjunct2, rule_format]

lemma inv_skip:
  assumes inv: "sched_inv ex otp os {} s" and iL: "i \<in> set (approved_positions os)"
    and ms: "must_skip s i"
  shows "sched_inv ex otp os {} (skip_op i s)"
proof -
  from iL have il: "i < length os" and ia: "status (os ! i) = Approved"
    by (simp_all add: approved_positions_iff)
  from ms have un: "op_id (ops s ! i) \<notin> completedIds s" "op_id (ops s ! i) \<notin> failedIds s"
    and dep: "\<not> falsy (dependsOn (ops s ! i))"
    by (simp_all add: must_skip_def Let_def)
  note ut = inv_unresolved_untouched [OF inv il un]
  have oi: "ops s ! i = os ! i" by (rule ut(3))
  note d = sched_invD [OF inv]
  show ?thesis
    apply (rule sched_invI)
    subgoal by (simp add: d(1))
    subgoal using d(2) by simp
    subgoal using d(3) iL by simp
    subgoal using d(4) ut(1) by simp
    subgoal by simp
    subgoal for j using d(1) d(6) [of j] il ut(2)
      by (auto simp: nth_list_update expected_op_def oi)
    subgoal using d(7) by simp
    subgoal using d(8) by (auto simp: oi)
    subgoal for j using d(9) [of j] by simp
    subgoal for j using d(10) [of j] dep by (auto simp: oi)
    subgoal using d(11) by simp
    subgoal using d(12) by (auto simp: oi)
    subgoal for w using d(13) [of w] il ia dep
      by (auto simp: oi legal_write_def intro: bexI [of _ "os ! i"])
    done
qed


lemma dispatch_fields [simp]:
  "ops (dispatch i s) = (ops s)[i := (ops s ! i)\<lparr>status := Running\<rparr>]"
  "results (dispatch i s) = results s"
  "skipped (dispatch i s) = skipped s"
  "dispatched (dispatch i s) = dispatched s @ [i]"
  "otpRequired (dispatch i s) = otpRequired s"
  "writes (dispatch i s) = writes s @ [(op_id (ops s ! i), status (ops s ! i), Running)]"
  by (simp_all add: dispatch_def Let_def)

lemma inv_dispatch:
  assumes inv: "sched_inv ex otp os P s" and iL: "i \<in> set (approved_positions os)"
    and nd: "i \<notin> set (dispatched s)" and ns: "i \<notin> set (skipped s)"
    and dc: "falsy (dependsOn (os ! i)) \<or> the (dependsOn (os ! i)) \<in> completedIds s"
  shows "sched_inv ex otp os (insert i P) (dispatch i s)"
proof -
  from iL have il: "i < length os" and ia: "status (os ! i) = Approved"
    by (simp_all add: approved_positions_iff)
  note d = sched_invD [OF inv]
  have nP: "i \<notin> P" using d(5) nd by auto
  have oi: "ops s ! i = os ! i" using d(6) [OF il] nd ns nP by (simp add: expected_op_def)
  have diff: "set (dispatched s @ [i]) - insert i P = set (dispatched s) - P"
    using nd by auto
  show ?thesis
    apply (rule sched_invI)
    subgoal by (simp add: d(1))
    subgoal using d(2) iL by simp
    subgoal using d(3) by simp
    subgoal using d(4) ns by simp
    subgoal using d(5) by auto
    subgoal for j using d(1) d(6) [of j] il ns nd
      by (auto simp: nth_list_update expected_op_def oi)
    subgoal unfolding dispatch_fields dispatch_sets diff by (rule d(7))
    subgoal unfolding dispatch_fields dispatch_sets diff by (rule d(8))
    subgoal for j using d(9) [of j] dc by auto
    subgoal for j using d(10) [of j] by simp
    subgoal unfolding dispatch_fields diff by (rule d(11))
    subgoal unfolding dispatch_fields diff by (rule d(12))
    subgoal for w using d(13) [of w] ia by (auto simp: oi legal_write_def)
    done
qed

lemma settle_fields [simp]:
  "ops (settle ex otp i s) =
     (ops s)[i := (ops s ! i)\<lparr>result := Some (ex i (ops s ! i) otp),
        status := (if exitCode (ex i (ops s ! i) otp) = 0 then Completed else Failed)\<rparr>]"
  "completedIds (settle ex otp i s) =
     (if exitCode (ex i (ops s ! i) otp) = 0 then insert (op_id (ops s ! i)) (completedIds s)
      else completedIds s)"
  "failedIds (settle ex otp i s) =
     (if exitCode (ex i (ops s ! i) otp) = 0 then failedIds s
      else insert (op_id (ops s ! i)) (failedIds s))"
  "results (settle ex otp i s) = results s @ [(op_id (ops s ! i), ex i (ops s ! i) otp)]"
  "skipped (settle ex otp i s) = skipped s"
  "dispatched (settle ex otp i s) = dispatched s"
  "otpRequired (settle ex otp i s) =
     (if requiresOtp (ex i (ops s ! i) otp) = Some True then True else otpRequired s)"
  "writes (settle ex otp i s) =
     writes s @ [(op_id (ops s ! i), status (ops s ! i),
                  if exitCode (ex i (ops s ! i) otp) = 0 then Completed else Failed)]"
  by (simp_all add: settle_def Let_def)

lemma inv_settle:
  assumes inv: "sched_inv ex otp os P s" and iP: "i \<in> P"
  shows "sched_inv ex otp os (P - {i}) (settle ex otp i s)"
proof -
  note d = sched_invD [OF inv]
  have idp: "i \<in> set (dispatched s)" using d(5) iP by auto
  have ns: "i \<notin> set (skipped s)" using d(4) idp by auto
  have il: "i < length os" using d(2) idp by (auto simp: approved_positions_iff)
  have oi: "ops s ! i = (os ! i)\<lparr>status := Running\<rparr>"
    using d(6) [OF il] ns iP by (simp add: expected_op_def)
  have r: "ex i ((os ! i)\<lparr>status := Running\<rparr>) otp = outcome_of ex otp os i"
    by (simp add: outcome_of_def)
  have diff: "set (dispatched s) - (P - {i}) = insert i (set (dispatched s) - P)"
    using idp by auto
  show ?thesis
    apply (rule sched_invI)
    subgoal by (simp add: d(1))
    subgoal using d(2) by simp
    subgoal using d(3) by simp
    subgoal using d(4) by simp
    subgoal using d(5) by auto
    subgoal for j using d(1) d(6) [of j] il ns idp
      by (auto simp: nth_list_update expected_op_def oi r)
    subgoal unfolding settle_fields diff oi r using d(7) by auto
    subgoal unfolding settle_fields diff oi r using d(8) by auto
    subgoal for j using d(9) [of j] by auto
    subgoal for j using d(10) [of j] by simp
    subgoal unfolding settle_fields diff oi r using d(11) by auto
    subgoal unfolding settle_fields diff oi r using d(12) by auto
    subgoal for w using d(13) [of w]
      by (cases "exitCode (ex i ((os ! i)\<lparr>status := Running\<rparr>) otp) = 0")
        (auto simp: oi legal_write_def)
    done
qed

section \<open>The invariant through a pass, a wave and the loop\<close>

lemma inv_visit:
  "sched_inv ex otp os {} s \<Longrightarrow> i \<in> set (approved_positions os) \<Longrightarrow>
     sched_inv ex otp os {} (visit i s)"
  by (simp add: visit_def inv_skip)

lemma inv_fold_visit:
  "sched_inv ex otp os {} s \<Longrightarrow> set is \<subseteq> set (approved_positions os) \<Longrightarrow>
     sched_inv ex otp os {} (fold visit is s)"
  by (induction "is" arbitrary: s) (simp_all add: inv_visit)

lemma visit_dispatched [simp]: "dispatched (visit i s) = dispatched s"
  by (simp add: visit_def)

lemma fold_visit_dispatched [simp]: "dispatched (fold visit is s) = dispatched s"
  by (induction "is" arbitrary: s) simp_all

lemma visit_skipped: "set (skipped (visit i s)) \<subseteq> insert i (set (skipped s))"
  by (auto simp: visit_def)

lemma fold_visit_skipped: "set (skipped (fold visit is s)) \<subseteq> set (skipped s) \<union> set is"
proof (induction "is" arbitrary: s)
  case Nil
  then show ?case by simp
next
  case (Cons i "is")
  from Cons.IH [of "visit i s"] visit_skipped [of i s] show ?case by auto
qed

lemma visit_dep [simp]: "dependsOn (ops (visit i s) ! j) = dependsOn (ops s ! j)"
proof -
  have "dependsOn ((ops s)[i := (\<lambda>x. x\<lparr>status := Failed, result := Some skipped_result\<rparr>) (ops s ! i)] ! j)
          = dependsOn (ops s ! j)"
    by (rule nth_update_field) simp
  then show ?thesis by (simp add: visit_def)
qed

lemma ready_dep:
  "j \<in> set (fst (readyOps is s)) \<Longrightarrow>
     falsy (dependsOn (ops s ! j)) \<or> the (dependsOn (ops s ! j)) \<in> completedIds s"
proof (induction "is" arbitrary: s)
  case Nil
  then show ?case by simp
next
  case (Cons i "is")
  show ?case
  proof (cases "is_ready s i")
    case True
    with Cons.prems have "j = i \<or> j \<in> set (fst (readyOps is s))"
      by (simp add: fst_readyOps_Cons del: readyOps.simps(2))
    then show ?thesis
    proof
      assume "j = i"
      with True show ?thesis by (simp add: is_ready_def Let_def)
    next
      assume "j \<in> set (fst (readyOps is s))"
      from Cons.IH [OF this] show ?thesis .
    qed
  next
    case False
    with Cons.prems have "j \<in> set (fst (readyOps is (visit i s)))"
      by (simp add: fst_readyOps_Cons del: readyOps.simps(2))
    from Cons.IH [OF this] show ?thesis by simp
  qed
qed

lemma ready_not_skipped:
  "j \<in> set (fst (readyOps is s)) \<Longrightarrow> distinct is \<Longrightarrow> j \<notin> set (skipped s) \<Longrightarrow>
     j \<notin> set (skipped (fold visit is s))"
proof (induction "is" arbitrary: s)
  case Nil
  then show ?case by simp
next
  case (Cons i "is")
  show ?case
  proof (cases "is_ready s i")
    case True
    with Cons.prems(1) have "j = i \<or> j \<in> set (fst (readyOps is s))"
      by (simp add: fst_readyOps_Cons del: readyOps.simps(2))
    then show ?thesis
    proof
      assume "j = i"
      with Cons.prems(2,3) fold_visit_skipped [of "is" s] True show ?thesis
        by (auto simp: ready_visit)
    next
      assume "j \<in> set (fst (readyOps is s))"
      from Cons.IH [OF this] Cons.prems(2,3) True show ?thesis by (simp add: ready_visit)
    qed
  next
    case False
    with Cons.prems(1) have j: "j \<in> set (fst (readyOps is (visit i s)))"
      by (simp add: fst_readyOps_Cons del: readyOps.simps(2))
    with ready_unresolved [OF j] Cons.prems(2) have "j \<noteq> i" by auto
    with Cons.prems(3) visit_skipped [of i s] have "j \<notin> set (skipped (visit i s))" by auto
    from Cons.IH [OF j _ this] Cons.prems(2) show ?thesis by simp
  qed
qed

lemma ready_distinct: "distinct is \<Longrightarrow> distinct (fst (readyOps is s))"
proof (induction "is" arbitrary: s)
  case Nil
  then show ?case by simp
next
  case (Cons i "is")
  show ?case
  proof (cases "is_ready s i")
    case True
    have "i \<notin> set (fst (readyOps is s))" using ready_unresolved [of i "is" s] Cons.prems by auto
    with True Cons show ?thesis by (simp add: fst_readyOps_Cons del: readyOps.simps(2))
  next
    case False
    with Cons show ?thesis by (simp add: fst_readyOps_Cons del: readyOps.simps(2))
  qed
qed

lemma inv_fold_dispatch:
  "sched_inv ex otp os P s \<Longrightarrow> distinct rs \<Longrightarrow>
   (\<And>i. i \<in> set rs \<Longrightarrow> i \<in> set (approved_positions os) \<and> i \<notin> set (dispatched s)
       \<and> i \<notin> set (skipped s)
       \<and> (falsy (dependsOn (os ! i)) \<or> the (dependsOn (os ! i)) \<in> completedIds s)) \<Longrightarrow>
   sched_inv ex otp os (P \<union> set rs) (fold dispatch rs s)"
proof (induction rs arbitrary: s P)
  case Nil
  then show ?case by simp
next
  case (Cons i rs)
  from Cons.prems(3) [of i]
  have 1: "sched_inv ex otp os (insert i P) (dispatch i s)"
    by (intro inv_dispatch [OF Cons.prems(1)]) simp_all
  have "sched_inv ex otp os (insert i P \<union> set rs) (fold dispatch rs (dispatch i s))"
  proof (rule Cons.IH [OF 1])
    show "distinct rs" using Cons.prems(2) by simp
  next
    fix k
    assume k: "k \<in> set rs"
    with Cons.prems(2) have "k \<noteq> i" by auto
    with Cons.prems(3) [of k] k
    show "k \<in> set (approved_positions os) \<and> k \<notin> set (dispatched (dispatch i s))
       \<and> k \<notin> set (skipped (dispatch i s))
       \<and> (falsy (dependsOn (os ! k)) \<or> the (dependsOn (os ! k)) \<in> completedIds (dispatch i s))"
      by simp
  qed
  then show ?case by simp
qed

lemma inv_fold_settle:
  "sched_inv ex otp os P s \<Longrightarrow> distinct rs \<Longrightarrow> set rs \<subseteq> P \<Longrightarrow>
   sched_inv ex otp os (P - set rs) (fold (settle ex otp) rs s)"
proof (induction rs arbitrary: s P)
  case Nil
  then show ?case by simp
next
  case (Cons i rs)
  have 1: "sched_inv ex otp os (P - {i}) (settle ex otp i s)"
    using Cons.prems by (intro inv_settle) simp_all
  have "sched_inv ex otp os (P - {i} - set rs) (fold (settle ex otp) rs (settle ex otp i s))"
    using Cons.prems by (intro Cons.IH [OF 1]) auto
  moreover have "P - {i} - set rs = P - set (i # rs)" by auto
  ultimately show ?case by simp
qed

lemma inv_run_wave:
  assumes "sched_inv ex otp os {} s" and "distinct rs"
    and "\<And>i. i \<in> set rs \<Longrightarrow> i \<in> set (approved_positions os) \<and> i \<notin> set (dispatched s)
       \<and> i \<notin> set (skipped s)
       \<and> (falsy (dependsOn (os ! i)) \<or> the (dependsOn (os ! i)) \<in> completedIds s)"
  shows "sched_inv ex otp os {} (run_wave ex otp rs s)"
proof -
  have "sched_inv ex otp os ({} \<union> set rs) (fold dispatch rs s)"
    using assms by (intro inv_fold_dispatch) auto
  then have "sched_inv ex otp os (set rs - set rs) (fold (settle ex otp) rs (fold dispatch rs s))"
    using assms(2) by (intro inv_fold_settle) simp_all
  then show ?thesis by (simp add: run_wave_def)
qed

lemma approved_positions_distinct: "distinct (approved_positions os)"
  by (simp add: approved_positions_def)

lemma approved_positions_sorted: "sorted (approved_positions os)"
  by (simp add: approved_positions_def sorted_wrt_filter)

text \<open>The pass keeps the invariant, and every ready position can be dispatched.\<close>

lemma inv_pass:
  assumes inv: "sched_inv ex otp os {} s"
    and pass: "readyOps (approved_positions os) s = (rs, s1)"
  shows "sched_inv ex otp os {} s1"
    and "distinct rs"
    and "\<And>i. i \<in> set rs \<Longrightarrow> i \<in> set (approved_positions os) \<and> i \<notin> set (dispatched s1)
       \<and> i \<notin> set (skipped s1)
       \<and> (falsy (dependsOn (os ! i)) \<or> the (dependsOn (os ! i)) \<in> completedIds s1)"
proof -
  let ?L = "approved_positions os"
  from pass have rs: "rs = fst (readyOps ?L s)" and s1: "s1 = fold visit ?L s"
    using snd_readyOps [of ?L s] by simp_all
  show "sched_inv ex otp os {} s1" unfolding s1 using inv by (rule inv_fold_visit) simp
  show "distinct rs" unfolding rs by (rule ready_distinct) (rule approved_positions_distinct)
  fix i
  assume "i \<in> set rs"
  then have i: "i \<in> set (fst (readyOps ?L s))" by (simp add: rs)
  from ready_unresolved [OF i]
  have iL: "i \<in> set ?L" and un: "op_id (ops s ! i) \<notin> completedIds s" "op_id (ops s ! i) \<notin> failedIds s"
    by simp_all
  from iL have il: "i < length os" by (simp add: approved_positions_iff)
  note ut = inv_unresolved_untouched [OF inv il un]
  have "i \<notin> set (skipped s1)" unfolding s1
    using i approved_positions_distinct ut(2) by (rule ready_not_skipped)
  moreover have "falsy (dependsOn (os ! i)) \<or> the (dependsOn (os ! i)) \<in> completedIds s1"
    using ready_dep [OF i] by (simp add: s1 ut(3))
  ultimately show "i \<in> set ?L \<and> i \<notin> set (dispatched s1) \<and> i \<notin> set (skipped s1)
       \<and> (falsy (dependsOn (os ! i)) \<or> the (dependsOn (os ! i)) \<in> completedIds s1)"
    using iL ut(1) by (simp add: s1)
qed

lemma inv_init: "sched_inv ex otp os {} (init_sched os)"
  by (rule sched_invI) (simp_all add: init_sched_def expected_op_def)

text \<open>
  What holds when the loop has ended: the state is the one a last filter pass left, from
  a state that satisfied the invariant, and that pass found nothing ready or the OTP
  stop applied.
\<close>

lemma wave_loop_exit:
  assumes "sched_inv ex otp os {} s"
  shows "\<exists>s0 rs. sched_inv ex otp os {} s0
           \<and> readyOps (approved_positions os) s0 = (rs, wave_loop ex otp (approved_positions os) s)
           \<and> (rs = [] \<or> (otpRequired (wave_loop ex otp (approved_positions os) s) \<and> falsy otp))"
  using assms
proof (induction ex otp "approved_positions os" s rule: wave_loop.induct)
  case (1 ex otp s)
  obtain rs s1 where pass: "readyOps (approved_positions os) s = (rs, s1)"
    by (cases "readyOps (approved_positions os) s")
  note p = inv_pass [OF "1.prems" pass]
  show ?case
  proof (cases "rs = [] \<or> (otpRequired s1 \<and> falsy otp)")
    case True
    then have "wave_loop ex otp (approved_positions os) s = s1"
      using pass by auto
    with True pass "1.prems" show ?thesis by auto
  next
    case False
    then have e: "wave_loop ex otp (approved_positions os) s
        = wave_loop ex otp (approved_positions os) (run_wave ex otp rs s1)"
      using pass by auto
    have "sched_inv ex otp os {} (run_wave ex otp rs s1)"
      using p(1,2) p(3) by (rule inv_run_wave)
    moreover from False have "rs \<noteq> []" and "\<not> (otpRequired s1 \<and> falsy otp)" by auto
    ultimately show ?thesis
      unfolding e using "1.hyps" [OF pass [symmetric]] by blast
  qed
qed

lemma execute_call_exit:
  "\<exists>s0 rs. sched_inv ex otp os {} s0
     \<and> readyOps (approved_positions os) s0 = (rs, execute_call ex otp os)
     \<and> (rs = [] \<or> (otpRequired (execute_call ex otp os) \<and> falsy otp))"
  unfolding execute_call_def by (rule wave_loop_exit) (rule inv_init)

lemma execute_call_inv: "sched_inv ex otp os {} (execute_call ex otp os)"
proof -
  from execute_call_exit [of ex otp os] obtain s0 rs
    where "sched_inv ex otp os {} s0"
      and "readyOps (approved_positions os) s0 = (rs, execute_call ex otp os)" by blast
  then show ?thesis by (rule inv_pass(1))
qed

section \<open>The OTP stop\<close>

text \<open>
  The waves the loop of /execute runs from a state, in order: the ready lists it hands to
  \<open>run_wave\<close>. The tests are those of \<open>wave_loop\<close>.
\<close>

function waves_run :: "executor \<Rightarrow> string option \<Rightarrow> nat list \<Rightarrow> sched \<Rightarrow> nat list list" where
  "waves_run ex otp approvedOps s =
     (case readyOps approvedOps s of
        (rs, s1) \<Rightarrow>
          if rs = [] then []
          else if otpRequired s1 \<and> falsy otp then []
          else rs # waves_run ex otp approvedOps (run_wave ex otp rs s1))"
  by pat_completeness auto
termination
  apply (relation "measure (\<lambda>(ex, otp, approvedOps, s). length (unresolved approvedOps s))")
   apply simp
  apply (simp add: wave_progress)
  done

lemma fold_dispatch_dispatched [simp]: "dispatched (fold dispatch rs s) = dispatched s @ rs"
  by (induction rs arbitrary: s) simp_all

lemma fold_settle_dispatched [simp]: "dispatched (fold (settle ex otp) rs s) = dispatched s"
  by (induction rs arbitrary: s) simp_all

lemma run_wave_dispatched [simp]: "dispatched (run_wave ex otp rs s) = dispatched s @ rs"
  by (simp add: run_wave_def)


lemma visit_otpRequired [simp]: "otpRequired (visit i s) = otpRequired s"
  by (simp add: visit_def)

lemma fold_visit_otpRequired [simp]: "otpRequired (fold visit is s) = otpRequired s"
  by (induction "is" arbitrary: s) simp_all


lemma wave_loop_stalled:
  assumes "otpRequired s" and "falsy otp"
  shows "wave_loop ex otp approvedOps s = snd (readyOps approvedOps s)"
proof -
  obtain rs s1 where pass: "readyOps approvedOps s = (rs, s1)"
    by (cases "readyOps approvedOps s")
  then have "s1 = fold visit approvedOps s" using snd_readyOps [of approvedOps s] by simp
  with assms have "otpRequired s1 \<and> falsy otp" by simp
  with pass show ?thesis by simp
qed






text \<open>
  On a store in which an operation depends on another (no handler builds one): without an
  OTP the loop stops after the wave in which the OTP was asked for, and the operation
  that became ready stays approved; with an OTP it runs that operation in a second wave.
\<close>

lemma otp_stall_leaves_ready_operation:
  "waves_run (example_executor [(1, otp_result)]) None [0, 1, 2]
       (init_sched [example_op ''a'' Approved None, example_op ''x'' Approved None,
          example_op ''b'' Approved (Some ''a'')]) = [[0, 1]]
   \<and> map status (ops (execute_call (example_executor [(1, otp_result)]) None
       [example_op ''a'' Approved None, example_op ''x'' Approved None,
        example_op ''b'' Approved (Some ''a'')])) = [Completed, Failed, Approved]
   \<and> waves_run (example_executor [(1, otp_result)]) (Some ''123456'') [0, 1, 2]
       (init_sched [example_op ''a'' Approved None, example_op ''x'' Approved None,
          example_op ''b'' Approved (Some ''a'')]) = [[0, 1], [2]]
   \<and> map status (ops (execute_call (example_executor [(1, otp_result)]) (Some ''123456'')
       [example_op ''a'' Approved None, example_op ''x'' Approved None,
        example_op ''b'' Approved (Some ''a'')])) = [Completed, Failed, Completed]"
  by code_simp

text \<open>
  An operation that depends on the one that asked for the OTP is failed by the dependency
  rule in the last filter pass: it is resolved, not left approved.
\<close>

lemma otp_failure_skips_dependent:
  "map status (ops (execute_call (example_executor [(0, otp_result)]) None
       [example_op ''a'' Approved None, example_op ''b'' Approved (Some ''a'')]))
     = [Failed, Failed]
   \<and> dispatched (execute_call (example_executor [(0, otp_result)]) None
       [example_op ''a'' Approved None, example_op ''b'' Approved (Some ''a'')]) = [0]"
  by code_simp

section \<open>The dependency rule\<close>

lemma fold_visit_dep [simp]: "dependsOn (ops (fold visit is s) ! j) = dependsOn (ops s ! j)"
  by (induction "is" arbitrary: s) simp_all

text \<open>A position whose dependency is already failed is resolved by the pass.\<close>

lemma pass_resolves_dependent:
  assumes "j \<in> set is"
    and "dependsOn (ops s ! j) = Some d" and "d \<noteq> []"
    and "d \<in> failedIds s" and "d \<notin> completedIds s"
  shows "op_id (ops s ! j) \<in> completedIds s \<union> failedIds (fold visit is s)"
  using assms
proof (induction "is" arbitrary: s)
  case Nil
  then show ?case by simp
next
  case (Cons h "is")
  show ?case
  proof (cases "j = h")
    case True
    show ?thesis
    proof (cases "op_id (ops s ! h) \<in> completedIds s \<union> failedIds s")
      case True
      with \<open>j = h\<close> fold_visit_failedIds [of s "h # is"] show ?thesis by auto
    next
      case False
      with Cons.prems True have "must_skip s h"
        by (simp add: must_skip_def Let_def falsy_def)
      then have "op_id (ops s ! h) \<in> failedIds (visit h s)" by (simp add: visit_def)
      with fold_visit_failedIds [of "visit h s" "is"] True show ?thesis by auto
    qed
  next
    case False
    with Cons.prems have j: "j \<in> set is" by simp
    have "op_id (ops (visit h s) ! j) \<in> completedIds (visit h s) \<union> failedIds (fold visit is (visit h s))"
      using j Cons.prems(2,3,4,5) visit_failedIds [of s h]
      by (intro Cons.IH) auto
    then show ?thesis by simp
  qed
qed

lemma fold_visit_failed_source:
  "x \<in> failedIds (fold visit is s) \<Longrightarrow> x \<in> failedIds s \<or> (\<exists>k \<in> set is. x = op_id (ops s ! k))"
proof (induction "is" arbitrary: s)
  case Nil
  then show ?case by simp
next
  case (Cons h "is")
  from Cons.IH [of "visit h s"] Cons.prems
  have "x \<in> failedIds (visit h s) \<or> (\<exists>k \<in> set is. x = op_id (ops s ! k))" by simp
  moreover have "failedIds (visit h s) \<subseteq> insert (op_id (ops s ! h)) (failedIds s)"
    by (auto simp: visit_def)
  ultimately show ?case by auto
qed

text \<open>
  After a pass over positions with pairwise different ids, a position that comes after a
  failed position it depends on is resolved.
\<close>

lemma pass_closed:
  assumes dist: "distinct (map (\<lambda>k. op_id (ops s ! k)) (xs @ i # ys))"
    and j: "j \<in> set ys"
    and dep: "dependsOn (ops s ! j) = Some (op_id (ops s ! i))" and ne: "op_id (ops s ! i) \<noteq> []"
    and f: "op_id (ops s ! i) \<in> failedIds (fold visit (xs @ i # ys) s)"
    and c: "op_id (ops s ! i) \<notin> completedIds s"
  shows "op_id (ops s ! j) \<in> completedIds s \<union> failedIds (fold visit (xs @ i # ys) s)"
proof -
  let ?m = "fold visit (xs @ [i]) s"
  have e: "fold visit (xs @ i # ys) s = fold visit ys ?m" by simp
  from f have "op_id (ops s ! i) \<in> failedIds (fold visit ys ?m)" by (simp only: e)
  from fold_visit_failed_source [OF this]
  have "op_id (ops s ! i) \<in> failedIds ?m \<or> (\<exists>k \<in> set ys. op_id (ops s ! i) = op_id (ops s ! k))"
    by simp
  moreover have "\<not> (\<exists>k \<in> set ys. op_id (ops s ! i) = op_id (ops s ! k))"
    using dist by auto
  ultimately have fm: "op_id (ops s ! i) \<in> failedIds ?m" by blast
  have "op_id (ops ?m ! j) \<in> completedIds ?m \<union> failedIds (fold visit ys ?m)"
    using j dep ne fm c by (intro pass_resolves_dependent [where d = "op_id (ops s ! i)"]) simp_all
  then show ?thesis by (simp only: e) simp
qed

lemma sorted_split:
  assumes "sorted L" and "i \<in> set L" and "j \<in> set L" and "(i::nat) < j"
  shows "\<exists>xs ys. L = xs @ i # ys \<and> j \<in> set ys"
proof -
  from assms(2) obtain xs ys where L: "L = xs @ i # ys" by (auto dest: split_list)
  with assms(1) have "\<forall>x \<in> set xs. x \<le> i" by (simp add: sorted_append)
  with assms(3,4) L have "j \<in> set ys" by auto
  with L show ?thesis by blast
qed

lemma distinct_ids_at:
  assumes "distinct (map f xs)" and "distinct ks" and "\<forall>k \<in> set ks. k < length xs"
  shows "distinct (map (\<lambda>k. f (xs ! k)) ks)"
proof -
  have "inj_on (\<lambda>k. f (xs ! k)) (set ks)"
  proof (rule inj_onI)
    fix a b
    assume a: "a \<in> set ks" and b: "b \<in> set ks" and e: "f (xs ! a) = f (xs ! b)"
    with assms(3) have al: "a < length xs" and bl: "b < length xs" by auto
    have "(map f xs ! a = map f xs ! b) = (a = b)"
      using assms(1) al bl by (intro nth_eq_iff_index_eq) simp_all
    with e al bl show "a = b" by simp
  qed
  with assms(2) show ?thesis by (simp add: distinct_map)
qed

text \<open>What the status of an approved position says about it when the call has ended.\<close>

lemma failed_position:
  assumes inv: "sched_inv ex otp os {} s" and il: "i < length os"
    and ia: "status (os ! i) = Approved" and fi: "status (ops s ! i) = Failed"
  shows "i \<in> set (skipped s) \<or> (i \<in> set (dispatched s) \<and> exitCode (outcome_of ex otp os i) \<noteq> 0)"
proof -
  note d = sched_invD [OF inv]
  have "ops s ! i = expected_op ex otp os {} s i" using il by (rule d(6))
  with fi ia show ?thesis by (auto simp: expected_op_def split: if_splits)
qed

lemma skipped_position:
  assumes inv: "sched_inv ex otp os {} s" and "j \<in> set (skipped s)"
  shows "status (ops s ! j) = Failed \<and> result (ops s ! j) = Some skipped_result
       \<and> j \<notin> set (dispatched s)"
proof -
  note d = sched_invD [OF inv]
  from assms(2) d(3) have jl: "j < length os" by (auto simp: approved_positions_iff)
  have "ops s ! j = expected_op ex otp os {} s j" using jl by (rule d(6))
  with assms(2) d(4) show ?thesis by (auto simp: expected_op_def)
qed

lemma dependent_skipped:
  assumes dist: "distinct (map op_id os)"
    and ij: "i < j" and jl: "j < length os"
    and ia: "status (os ! i) = Approved" and ja: "status (os ! j) = Approved"
    and dep: "dependsOn (os ! j) = Some (op_id (os ! i))" and ne: "op_id (os ! i) \<noteq> []"
    and fi: "status (ops (execute_call ex otp os) ! i) = Failed"
  shows "j \<in> set (skipped (execute_call ex otp os))"
proof -
  let ?s = "execute_call ex otp os"
  let ?L = "approved_positions os"
  from ij jl have il: "i < length os" by simp
  have iL: "i \<in> set ?L" and jL: "j \<in> set ?L"
    using il jl ia ja by (simp_all add: approved_positions_iff)
  from execute_call_exit [of ex otp os] obtain s0 rs
    where inv0: "sched_inv ex otp os {} s0" and pass: "readyOps ?L s0 = (rs, ?s)" by blast
  have s: "?s = fold visit ?L s0" using pass snd_readyOps [of ?L s0] by simp
  note inv = execute_call_inv [of ex otp os]
  note d = sched_invD [OF inv]
  have inj: "k = l" if "k < length os" "l < length os" "op_id (os ! k) = op_id (os ! l)" for k l
  proof -
    have "(map op_id os ! k = map op_id os ! l) = (k = l)"
      using dist that(1,2) by (intro nth_eq_iff_index_eq) simp_all
    with that show ?thesis by simp
  qed
  have inL: "k < length os" if "k \<in> set (dispatched ?s) \<or> k \<in> set (skipped ?s)" for k
    using that d(2,3) by (auto simp: approved_positions_iff)
  \<comment> \<open>the id of \<open>i\<close> is in the failed set and not in the completed set\<close>
  from failed_position [OF inv il ia fi]
  have fF: "op_id (os ! i) \<in> failedIds ?s" unfolding d(8) by auto
  have nC: "op_id (os ! i) \<notin> completedIds ?s"
  proof
    assume "op_id (os ! i) \<in> completedIds ?s"
    then obtain k where k: "k \<in> set (dispatched ?s)" "exitCode (outcome_of ex otp os k) = 0"
      "op_id (os ! i) = op_id (os ! k)" unfolding d(7) by auto
    with inj [OF il inL] have "k = i" by auto
    with k failed_position [OF inv il ia fi] d(4) show False by auto
  qed
  \<comment> \<open>the last pass resolved \<open>j\<close>\<close>
  from sorted_split [OF approved_positions_sorted iL jL ij]
  obtain xs ys where L: "?L = xs @ i # ys" and jy: "j \<in> set ys" by blast
  have ids0: "op_id (ops s0 ! k) = op_id (os ! k)" if "k < length os" for k
    using inv0 that by (rule inv_id)
  have d1: "distinct (map (\<lambda>k. op_id (os ! k)) ?L)"
    using dist approved_positions_distinct by (rule distinct_ids_at) (simp add: approved_positions_iff)
  have e1: "map (\<lambda>k. op_id (ops s0 ! k)) ?L = map (\<lambda>k. op_id (os ! k)) ?L"
    by (rule map_cong) (simp_all add: ids0 approved_positions_iff)
  have "distinct (map (\<lambda>k. op_id (ops s0 ! k)) ?L)" unfolding e1 by (rule d1)
  then have dist0: "distinct (map (\<lambda>k. op_id (ops s0 ! k)) (xs @ i # ys))"
    unfolding L .
  have "op_id (ops s0 ! j) \<in> completedIds s0 \<union> failedIds (fold visit (xs @ i # ys) s0)"
  proof (rule pass_closed [OF dist0 jy])
    show "dependsOn (ops s0 ! j) = Some (op_id (ops s0 ! i))"
      using dep inv_dep [OF inv0 jl] ids0 [OF il] by simp
    show "op_id (ops s0 ! i) \<noteq> []" using ne ids0 [OF il] by simp
    show "op_id (ops s0 ! i) \<in> failedIds (fold visit (xs @ i # ys) s0)"
      using fF ids0 [OF il] by (simp add: s L)
    show "op_id (ops s0 ! i) \<notin> completedIds s0"
      using nC ids0 [OF il] by (simp add: s)
  qed
  then have res: "op_id (os ! j) \<in> completedIds ?s \<union> failedIds ?s"
    using ids0 [OF jl] by (simp add: s L)
  \<comment> \<open>so \<open>j\<close> itself was dispatched or skipped, and it was not dispatched\<close>
  from res obtain k where k: "k \<in> set (dispatched ?s) \<or> k \<in> set (skipped ?s)"
    and "op_id (os ! j) = op_id (os ! k)" unfolding d(7) d(8) by auto
  with inj [OF jl inL] have "k = j" by auto
  with k have "j \<in> set (dispatched ?s) \<or> j \<in> set (skipped ?s)" by simp
  moreover have "j \<notin> set (dispatched ?s)"
  proof
    assume "j \<in> set (dispatched ?s)"
    from d(9) [OF this] dep ne nC show False by (simp add: falsy_def)
  qed
  ultimately show ?thesis by simp
qed

text \<open>
  The dependency rule on a store whose ids are pairwise different: an approved operation
  B whose \<open>dependsOn\<close> is the non-empty id of an operation A that is stored before B, was
  approved when the call began and is failed when the call returns, ends the call failed
  with the result \<open>{stdout: '', stderr: 'Skipped: dependency failed', exitCode: 1}\<close>,
  and the executor is not invoked for it; and so on along the chain. No handler creates
  an operation with a \<open>dependsOn\<close> (lemma \<open>reachable_no_dependencies\<close>), so this
  speaks of stores that /execute does not receive from the handlers.
\<close>

lemma dependency_failure_cascades:
  assumes "distinct (map op_id os)"
    and "i < j" and "j < length os"
    and "status (os ! i) = Approved" and "status (os ! j) = Approved"
    and "dependsOn (os ! j) = Some (op_id (os ! i))" and "op_id (os ! i) \<noteq> []"
    and "status (ops (execute_call ex otp os) ! i) = Failed"
  shows "status (ops (execute_call ex otp os) ! j) = Failed
       \<and> result (ops (execute_call ex otp os) ! j) = Some skipped_result
       \<and> j \<notin> set (dispatched (execute_call ex otp os))
       \<and> (\<forall>k. j < k \<and> k < length os \<and> status (os ! k) = Approved
              \<and> dependsOn (os ! k) = Some (op_id (os ! j)) \<and> op_id (os ! j) \<noteq> [] \<longrightarrow>
              status (ops (execute_call ex otp os) ! k) = Failed
              \<and> result (ops (execute_call ex otp os) ! k) = Some skipped_result
              \<and> k \<notin> set (dispatched (execute_call ex otp os)))"
proof -
  let ?s = "execute_call ex otp os"
  note inv = execute_call_inv [of ex otp os]
  have "j \<in> set (skipped ?s)" using assms by (rule dependent_skipped)
  then have 1: "status (ops ?s ! j) = Failed \<and> result (ops ?s ! j) = Some skipped_result
       \<and> j \<notin> set (dispatched ?s)"
    by (rule skipped_position [OF inv])
  have 2: "status (ops ?s ! k) = Failed \<and> result (ops ?s ! k) = Some skipped_result
       \<and> k \<notin> set (dispatched ?s)"
    if "j < k" "k < length os" "status (os ! k) = Approved"
      "dependsOn (os ! k) = Some (op_id (os ! j))" "op_id (os ! j) \<noteq> []" for k
  proof -
    from 1 have "status (ops ?s ! j) = Failed" by simp
    with assms(1) that(1,2) assms(5) that(3,4,5) have "k \<in> set (skipped ?s)"
      by (rule dependent_skipped)
    then show ?thesis by (rule skipped_position [OF inv])
  qed
  from 1 2 show ?thesis by blast
qed

lemma dependency_failure_cascades_example:
  "status (ops (execute_call (example_executor [(0, error_result)]) None
       [example_op ''a'' Approved None, example_op ''b'' Approved (Some ''a''),
        example_op ''c'' Approved (Some ''b'')]) ! 0) = Failed
   \<and> status (ops (execute_call (example_executor [(0, error_result)]) None
       [example_op ''a'' Approved None, example_op ''b'' Approved (Some ''a''),
        example_op ''c'' Approved (Some ''b'')]) ! 1) = Failed
   \<and> result (ops (execute_call (example_executor [(0, error_result)]) None
       [example_op ''a'' Approved None, example_op ''b'' Approved (Some ''a''),
        example_op ''c'' Approved (Some ''b'')]) ! 1) = Some skipped_result
   \<and> 1 \<notin> set (dispatched (execute_call (example_executor [(0, error_result)]) None
       [example_op ''a'' Approved None, example_op ''b'' Approved (Some ''a''),
        example_op ''c'' Approved (Some ''b'')]))
   \<and> status (ops (execute_call (example_executor [(0, error_result)]) None
       [example_op ''a'' Approved None, example_op ''b'' Approved (Some ''a''),
        example_op ''c'' Approved (Some ''b'')]) ! 2) = Failed
   \<and> result (ops (execute_call (example_executor [(0, error_result)]) None
       [example_op ''a'' Approved None, example_op ''b'' Approved (Some ''a''),
        example_op ''c'' Approved (Some ''b'')]) ! 2) = Some skipped_result
   \<and> 2 \<notin> set (dispatched (execute_call (example_executor [(0, error_result)]) None
       [example_op ''a'' Approved None, example_op ''b'' Approved (Some ''a''),
        example_op ''c'' Approved (Some ''b'')]))"
proof -
  let ?ex = "example_executor [(0, error_result)]"
  let ?os = "[example_op ''a'' Approved None, example_op ''b'' Approved (Some ''a''),
        example_op ''c'' Approved (Some ''b'')]"
  have h1: "distinct (map op_id ?os)" by (simp add: example_op_def)
  have h2: "(0::nat) < 1" and h3: "1 < length ?os" by simp_all
  have h4: "status (?os ! 0) = Approved" and h5: "status (?os ! 1) = Approved"
    by (simp_all add: example_op_def)
  have h6: "dependsOn (?os ! 1) = Some (op_id (?os ! 0))" and h7: "op_id (?os ! 0) \<noteq> []"
    by (simp_all add: example_op_def)
  have h8: "status (ops (execute_call ?ex None ?os) ! 0) = Failed" by code_simp
  have k: "(1::nat) < 2 \<and> 2 < length ?os \<and> status (?os ! 2) = Approved
      \<and> dependsOn (?os ! 2) = Some (op_id (?os ! 1)) \<and> op_id (?os ! 1) \<noteq> []"
    by (simp add: example_op_def)
  from dependency_failure_cascades [OF h1 h2 h3 h4 h5 h6 h7 h8] k h8
  show ?thesis by blast
qed

text \<open>
  The loop looks a dependency up in the two sets of ids it fills itself, never in the
  status of the operation: when A has been failed by an earlier call, B stays approved and
  gets no result.
\<close>

lemma dependency_failed_earlier_example:
  "status ([(example_op ''a'' Failed None)\<lparr>result := Some error_result\<rparr>,
            example_op ''b'' Approved (Some ''a'')] ! 1) = Approved
   \<and> dependsOn ([(example_op ''a'' Failed None)\<lparr>result := Some error_result\<rparr>,
            example_op ''b'' Approved (Some ''a'')] ! 1)
       = Some (op_id ([(example_op ''a'' Failed None)\<lparr>result := Some error_result\<rparr>,
            example_op ''b'' Approved (Some ''a'')] ! 0))
   \<and> status (ops (execute_call (example_executor []) None
         [(example_op ''a'' Failed None)\<lparr>result := Some error_result\<rparr>,
          example_op ''b'' Approved (Some ''a'')]) ! 0) = Failed
   \<and> status (ops (execute_call (example_executor []) None
         [(example_op ''a'' Failed None)\<lparr>result := Some error_result\<rparr>,
          example_op ''b'' Approved (Some ''a'')]) ! 1) = Approved
   \<and> status (ops (execute_call (example_executor []) None
         [(example_op ''a'' Failed None)\<lparr>result := Some error_result\<rparr>,
          example_op ''b'' Approved (Some ''a'')]) ! 1) \<noteq> Failed
   \<and> result (ops (execute_call (example_executor []) None
         [(example_op ''a'' Failed None)\<lparr>result := Some error_result\<rparr>,
          example_op ''b'' Approved (Some ''a'')]) ! 1) = None
   \<and> results (execute_call (example_executor []) None
         [(example_op ''a'' Failed None)\<lparr>result := Some error_result\<rparr>,
          example_op ''b'' Approved (Some ''a'')]) = []"
  by code_simp

section \<open>The operation state machine\<close>

text \<open>No operation of the store has a \<open>dependsOn\<close>.\<close>

definition no_dependencies :: "operation list \<Rightarrow> bool" where
  "no_dependencies os \<longleftrightarrow> (\<forall>op \<in> set os. dependsOn op = None)"

lemma execute_writes:
  assumes "no_dependencies os" and "w \<in> set (writes (execute_call ex otp os))"
  shows "snd w \<in> status_edges"
proof -
  note d = sched_invD [OF execute_call_inv [of ex otp os]]
  from d(13) [OF assms(2)] assms(1) show ?thesis
    by (auto simp: legal_write_def no_dependencies_def status_edges_def falsy_def)
qed

lemma execute_no_dependencies:
  assumes "no_dependencies os"
  shows "no_dependencies (ops (execute_call ex otp os))"
  unfolding no_dependencies_def
proof
  fix op
  let ?s = "execute_call ex otp os"
  note d = sched_invD [OF execute_call_inv [of ex otp os]]
  assume "op \<in> set (ops ?s)"
  then obtain j where j: "j < length (ops ?s)" and op: "op = ops ?s ! j"
    by (auto simp: in_set_conv_nth)
  from j d(1) have jl: "j < length os" by simp
  have "dependsOn (ops ?s ! j) = dependsOn (os ! j)" using d(6) [OF jl] by simp
  with assms jl op show "dependsOn op = None" by (simp add: no_dependencies_def)
qed

lemma no_dependencies_update:
  "no_dependencies os \<Longrightarrow> dependsOn x = None \<Longrightarrow> no_dependencies (os[i := x])"
  unfolding no_dependencies_def using set_update_subset_insert [of os i x] by auto

lemma no_dependencies_remove:
  "no_dependencies os \<Longrightarrow> no_dependencies (take i os @ drop (Suc i) os)"
  unfolding no_dependencies_def using set_take_subset [of i os] set_drop_subset [of "Suc i" os]
  by auto

lemma no_dependencies_nth:
  "no_dependencies os \<Longrightarrow> i < length os \<Longrightarrow> dependsOn (os ! i) = None"
  by (simp add: no_dependencies_def)

lemma findIndex_nth: "findIndex p xs = Some i \<Longrightarrow> i < length xs"
  using findIndex_Some [of p xs i] by simp

lemma handle_request_step:
  assumes "no_dependencies (operations st)" and "handle_request tok r st = (resp, st1, ws)"
  shows "no_dependencies (operations st1) \<and> (\<forall>w \<in> set ws. snd w \<in> status_edges)"
proof (cases r)
  case (Connect bodyToken now user)
  with assms show ?thesis by (auto simp: post_connect_def split: if_splits)
next
  case (GetState auth)
  with assms show ?thesis by (auto simp: get_state_def split: if_splits)
next
  case (PostOperations auth b newId now)
  with assms show ?thesis
    by (auto simp: post_operations_def Let_def no_dependencies_def new_operation_def split: if_splits)
next
  case (PostOperationsBatch auth items)
  with assms show ?thesis
    by (auto simp: post_operations_batch_def Let_def no_dependencies_def new_operation_def
        split: if_splits)
next
  case (PostApprove auth ident)
  with assms show ?thesis
    by (auto simp: post_approve_def Let_def status_edges_def no_dependencies_update
          no_dependencies_nth findIndex_nth
        split: if_splits option.splits)
next
  case (PostApproveAll auth)
  with assms show ?thesis
    by (auto simp: post_approve_all_def Let_def status_edges_def no_dependencies_def
        split: if_splits)
next
  case (PostRetry auth ident)
  with assms show ?thesis
    by (auto simp: post_retry_def Let_def status_edges_def no_dependencies_update
          no_dependencies_nth findIndex_nth
        split: if_splits option.splits)
next
  case (PostExecute auth otp run)
  with assms show ?thesis
    using execute_writes [OF assms(1), of _ "executeOperation run" otp]
    by (auto simp: post_execute_def Let_def execute_no_dependencies
        split: if_splits)
next
  case (DeleteOperation auth ident)
  with assms show ?thesis
    by (auto simp: delete_operation_def no_dependencies_remove split: if_splits option.splits)
next
  case (DeleteAll auth)
  with assms show ?thesis
    by (auto simp: delete_all_def Let_def no_dependencies_def split: if_splits)
next
  case (GetOrgUsers auth org run parses)
  with assms show ?thesis by (auto simp: list_endpoint_def Let_def split: if_splits)
next
  case (GetOrgTeams auth org run parses)
  with assms show ?thesis by (auto simp: list_endpoint_def Let_def split: if_splits)
next
  case (GetTeamUsers auth scopeTeam run parses)
  with assms show ?thesis by (auto simp: list_endpoint_def Let_def split: if_splits)
next
  case (GetCollaborators auth pkg run parses)
  with assms show ?thesis by (auto simp: list_endpoint_def Let_def split: if_splits)
qed

lemma run_requests_edges:
  "no_dependencies (operations st) \<Longrightarrow> w \<in> set (snd (run_requests tok rs st)) \<Longrightarrow>
     snd w \<in> status_edges"
proof (induction rs arbitrary: st)
  case Nil
  then show ?case by simp
next
  case (Cons r rs)
  obtain resp st1 ws where h: "handle_request tok r st = (resp, st1, ws)"
    by (cases "handle_request tok r st") auto
  obtain st2 ws2 where t: "run_requests tok rs st1 = (st2, ws2)"
    by (cases "run_requests tok rs st1") auto
  from handle_request_step [OF Cons.prems(1) h]
  have n1: "no_dependencies (operations st1)" and e1: "\<forall>w \<in> set ws. snd w \<in> status_edges"
    by simp_all
  from Cons.prems(2) h t have "w \<in> set ws \<or> w \<in> set (snd (run_requests tok rs st1))"
    by auto
  with e1 Cons.IH [OF n1] show ?case by auto
qed

lemma reachable_no_dependencies:
  "no_dependencies (operations st) \<Longrightarrow>
     no_dependencies (operations (fst (run_requests tok rs st)))"
proof (induction rs arbitrary: st)
  case Nil
  then show ?case by simp
next
  case (Cons r rs)
  obtain resp st1 ws where h: "handle_request tok r st = (resp, st1, ws)"
    by (cases "handle_request tok r st") auto
  obtain st2 ws2 where t: "run_requests tok rs st1 = (st2, ws2)"
    by (cases "run_requests tok rs st1") auto
  from handle_request_step [OF Cons.prems h] have "no_dependencies (operations st1)" by simp
  from Cons.IH [OF this] h t show ?case by simp
qed

text \<open>
  C3. For every sequence of requests handled by the connector from its initial state,
  each request handled to its end before the next (connect, state, create, batch create,
  approve, approve-all, retry, execute, delete, delete-all, the list queries): every
  assignment to the status of an operation goes along one of the edges pending to
  approved, approved to running, running to completed, running to failed, failed to
  approved. Deleting removes operations and assigns no status.
\<close>

theorem status_transitions:
  "\<forall>w \<in> set (snd (run_requests tok rs (createConnectorApp tok))). snd w \<in> status_edges"
proof
  fix w
  assume "w \<in> set (snd (run_requests tok rs (createConnectorApp tok)))"
  moreover have "no_dependencies (operations (createConnectorApp tok))"
    by (simp add: no_dependencies_def createConnectorApp_def)
  ultimately show "snd w \<in> status_edges" by (rule run_requests_edges [rotated])
qed

theorem status_transitions_witness:
  "snd (run_requests ''s3cret''
      [PostOperations (Some ''Bearer s3cret'') example_body ''a'' 1,
       PostApprove (Some ''Bearer s3cret'') (Some ''a''),
       PostExecute (Some ''Bearer s3cret'') None npm_otp_failure,
       PostRetry (Some ''Bearer s3cret'') (Some ''a''),
       PostExecute (Some ''Bearer s3cret'') (Some ''123456'') npm_success]
      (createConnectorApp ''s3cret''))
     = [(''a'', Pending, Approved), (''a'', Approved, Running), (''a'', Running, Failed),
        (''a'', Failed, Approved), (''a'', Approved, Running), (''a'', Running, Completed)]
   \<and> (Pending, Approved) \<in> status_edges \<and> (Approved, Running) \<in> status_edges
   \<and> (Running, Failed) \<in> status_edges \<and> (Failed, Approved) \<in> status_edges
   \<and> (Running, Completed) \<in> status_edges"
proof -
  let ?rs = "[PostOperations (Some ''Bearer s3cret'') example_body ''a'' 1,
       PostApprove (Some ''Bearer s3cret'') (Some ''a''),
       PostExecute (Some ''Bearer s3cret'') None npm_otp_failure,
       PostRetry (Some ''Bearer s3cret'') (Some ''a''),
       PostExecute (Some ''Bearer s3cret'') (Some ''123456'') npm_success]"
  have e: "snd (run_requests ''s3cret'' ?rs (createConnectorApp ''s3cret''))
     = [(''a'', Pending, Approved), (''a'', Approved, Running), (''a'', Running, Failed),
        (''a'', Failed, Approved), (''a'', Approved, Running), (''a'', Running, Completed)]"
    by code_simp
  from status_transitions [of "''s3cret''" ?rs]
  have "\<forall>w \<in> set [(''a'', Pending, Approved), (''a'', Approved, Running), (''a'', Running, Failed),
        (''a'', Failed, Approved), (''a'', Approved, Running), (''a'', Running, Completed)].
          snd w \<in> status_edges"
    by (simp only: e)
  with e show ?thesis by simp
qed

text \<open>
  The dependency rule of the filter pass assigns \<open>failed\<close> to an approved operation
  without passing through \<open>running\<close>. It needs an operation with a \<open>dependsOn\<close>, which no
  handler creates.
\<close>

lemma dependency_skip_write:
  "writes (execute_call (example_executor [(0, error_result)]) None
       [example_op ''a'' Approved None, example_op ''b'' Approved (Some ''a'')])
     = [(''a'', Approved, Running), (''a'', Running, Failed), (''b'', Approved, Failed)]"
  by code_simp

section \<open>Termination of the wave loop\<close>

lemma unresolved_shrinks:
  assumes "readyOps approvedOps s = (rs, s1)" and "rs \<noteq> []"
  shows "set (unresolved approvedOps (run_wave ex otp rs s1)) \<subset> set (unresolved approvedOps s)"
proof -
  from assms(2) obtain j where j: "j \<in> set rs" by (cases rs) auto
  from assms(1) have rs: "rs = fst (readyOps approvedOps s)"
    and s1: "s1 = fold visit approvedOps s"
    using snd_readyOps [of approvedOps s] by simp_all
  from j rs ready_unresolved [of j approvedOps s]
  have jin: "j \<in> set approvedOps"
    and jun: "op_id (ops s ! j) \<notin> completedIds s \<union> failedIds s" by auto
  have mono: "completedIds s \<union> failedIds s
                \<subseteq> completedIds (run_wave ex otp rs s1) \<union> failedIds (run_wave ex otp rs s1)"
    using run_wave_sets_mono [of s1 ex otp rs] fold_visit_failedIds [of s approvedOps]
    by (auto simp: s1)
  have jres: "op_id (ops s ! j)
                \<in> completedIds (run_wave ex otp rs s1) \<union> failedIds (run_wave ex otp rs s1)"
    using run_wave_resolves [OF j, of s1 ex otp] by (simp add: s1)
  have "j \<in> set (unresolved approvedOps s)" using jin jun by (simp add: unresolved_def)
  moreover have "j \<notin> set (unresolved approvedOps (run_wave ex otp rs s1))"
    using jres by (simp add: unresolved_def s1)
  moreover have "set (unresolved approvedOps (run_wave ex otp rs s1)) \<subseteq> set (unresolved approvedOps s)"
    using mono by (auto simp: unresolved_def s1)
  ultimately show ?thesis by blast
qed

text \<open>
  C4. For every operation collection and every scheduler state, whatever the
  \<open>dependsOn\<close> values refer to (unknown ids, operations that are not approved, cycles):
  an iteration of the wave loop either ends the loop (the ready set is empty, or an OTP is
  required and none was given) or runs a wave, after which the set of approved positions
  whose id is in neither the completed nor the failed set is strictly smaller. That set
  is finite and is the measure by which \<open>wave_loop\<close> is defined as a total function, so
  the call always returns.
\<close>

theorem wave_loop_terminates:
  assumes "readyOps approvedOps s = (rs, s1)"
  shows "(rs = [] \<or> (otpRequired s1 \<and> falsy otp) \<longrightarrow> wave_loop ex otp approvedOps s = s1)
       \<and> (rs \<noteq> [] \<and> \<not> (otpRequired s1 \<and> falsy otp) \<longrightarrow>
            wave_loop ex otp approvedOps s = wave_loop ex otp approvedOps (run_wave ex otp rs s1)
            \<and> set (unresolved approvedOps (run_wave ex otp rs s1)) \<subset> set (unresolved approvedOps s)
            \<and> length (unresolved approvedOps (run_wave ex otp rs s1))
                 < length (unresolved approvedOps s))"
  using assms unresolved_shrinks [OF assms, of ex otp] wave_progress [OF assms, of ex otp]
  by auto

theorem wave_loop_terminates_witness:
  "readyOps [0, 1, 2]
       (init_sched [example_op ''a'' Approved (Some ''b''), example_op ''b'' Approved (Some ''a''),
          example_op ''c'' Approved None])
     = ([2], init_sched [example_op ''a'' Approved (Some ''b''), example_op ''b'' Approved (Some ''a''),
          example_op ''c'' Approved None])
   \<and> unresolved [0, 1, 2]
       (init_sched [example_op ''a'' Approved (Some ''b''), example_op ''b'' Approved (Some ''a''),
          example_op ''c'' Approved None]) = [0, 1, 2]
   \<and> unresolved [0, 1, 2]
       (run_wave (example_executor []) None [2]
         (init_sched [example_op ''a'' Approved (Some ''b''), example_op ''b'' Approved (Some ''a''),
          example_op ''c'' Approved None])) = [0, 1]
   \<and> set (unresolved [0, 1, 2]
       (run_wave (example_executor []) None [2]
         (init_sched [example_op ''a'' Approved (Some ''b''), example_op ''b'' Approved (Some ''a''),
          example_op ''c'' Approved None])))
       \<subset> set (unresolved [0, 1, 2]
       (init_sched [example_op ''a'' Approved (Some ''b''), example_op ''b'' Approved (Some ''a''),
          example_op ''c'' Approved None]))
   \<and> wave_loop (example_executor []) None [0, 1, 2]
       (init_sched [example_op ''a'' Approved (Some ''b''), example_op ''b'' Approved (Some ''a''),
          example_op ''c'' Approved None])
     = wave_loop (example_executor []) None [0, 1, 2]
         (run_wave (example_executor []) None [2]
           (init_sched [example_op ''a'' Approved (Some ''b''), example_op ''b'' Approved (Some ''a''),
              example_op ''c'' Approved None]))
   \<and> map status (ops (execute_call (example_executor []) None
         [example_op ''a'' Approved (Some ''b''), example_op ''b'' Approved (Some ''a''),
          example_op ''c'' Approved None])) = [Approved, Approved, Completed]"
proof -
  let ?os = "[example_op ''a'' Approved (Some ''b''), example_op ''b'' Approved (Some ''a''),
          example_op ''c'' Approved None]"
  let ?s = "init_sched ?os"
  have p: "readyOps [0, 1, 2] ?s = ([2], ?s)"
    by (simp add: init_sched_def example_op_def falsy_def keep_def)
  have n: "[2::nat] \<noteq> [] \<and> \<not> (otpRequired ?s \<and> falsy None)" by (simp add: init_sched_def)
  have u0: "unresolved [0, 1, 2] ?s = [0, 1, 2]" by code_simp
  have u1: "unresolved [0, 1, 2] (run_wave (example_executor []) None [2] ?s) = [0, 1]"
    by code_simp
  have f: "map status (ops (execute_call (example_executor []) None ?os))
      = [Approved, Approved, Completed]" by code_simp
  from wave_loop_terminates [OF p, of None "example_executor []"] n p u0 u1 f
  show ?thesis by blast
qed

section \<open>Status of an executed operation\<close>

text \<open>
  C5. For every operation handed to the executor by /execute, at position \<open>j\<close> of the
  store: its result is the one the executor returned, its status when the call returns is
  completed if and only if that result's \<open>exitCode\<close> is 0 and failed otherwise, whatever
  the \<open>requiresOtp\<close> and \<open>authFailure\<close> flags of the result are; and if the result
  carries \<open>requiresOtp\<close>, the \<open>otpRequired\<close> flag of the call is set, whatever its
  \<open>exitCode\<close> is.
\<close>

theorem executed_status:
  assumes "j \<in> set (dispatched (execute_call ex otp os))"
  shows "result (ops (execute_call ex otp os) ! j) = Some (ex j ((os ! j)\<lparr>status := Running\<rparr>) otp)
       \<and> (status (ops (execute_call ex otp os) ! j) = Completed
            \<longleftrightarrow> exitCode (ex j ((os ! j)\<lparr>status := Running\<rparr>) otp) = 0)
       \<and> (status (ops (execute_call ex otp os) ! j) = Failed
            \<longleftrightarrow> exitCode (ex j ((os ! j)\<lparr>status := Running\<rparr>) otp) \<noteq> 0)
       \<and> (requiresOtp (ex j ((os ! j)\<lparr>status := Running\<rparr>) otp) = Some True
            \<longrightarrow> otpRequired (execute_call ex otp os))"
proof -
  let ?s = "execute_call ex otp os"
  note d = sched_invD [OF execute_call_inv [of ex otp os]]
  from assms d(2) have jl: "j < length os" by (auto simp: approved_positions_iff)
  from assms d(4) have ns: "j \<notin> set (skipped ?s)" by auto
  have "ops ?s ! j = expected_op ex otp os {} ?s j" using jl by (rule d(6))
  with assms ns have o: "ops ?s ! j =
      (os ! j)\<lparr>status := (if exitCode (outcome_of ex otp os j) = 0 then Completed else Failed),
                 result := Some (outcome_of ex otp os j)\<rparr>"
    by (simp add: expected_op_def)
  have "requiresOtp (outcome_of ex otp os j) = Some True \<longrightarrow> otpRequired ?s"
    using d(11) assms by auto
  with o show ?thesis by (simp add: outcome_of_def)
qed

theorem executed_status_witness:
  "status (ops (execute_call (example_executor [(1, otp_result)]) None
       [example_op ''a'' Approved None, example_op ''x'' Approved None]) ! 0) = Completed
   \<and> status (ops (execute_call (example_executor [(1, otp_result)]) None
       [example_op ''a'' Approved None, example_op ''x'' Approved None]) ! 1) = Failed
   \<and> otpRequired (execute_call (example_executor [(1, otp_result)]) None
       [example_op ''a'' Approved None, example_op ''x'' Approved None])"
proof -
  let ?ex = "example_executor [(1, otp_result)]"
  let ?os = "[example_op ''a'' Approved None, example_op ''x'' Approved None]"
  have d0: "0 \<in> set (dispatched (execute_call ?ex None ?os))" by code_simp
  have d1: "1 \<in> set (dispatched (execute_call ?ex None ?os))" by code_simp
  have e0: "exitCode (?ex 0 ((?os ! 0)\<lparr>status := Running\<rparr>) None) = 0" by code_simp
  have e1: "exitCode (?ex 1 ((?os ! 1)\<lparr>status := Running\<rparr>) None) \<noteq> 0" by code_simp
  have r1: "requiresOtp (?ex 1 ((?os ! 1)\<lparr>status := Running\<rparr>) None) = Some True" by code_simp
  from executed_status [OF d0] executed_status [OF d1] e0 e1 r1 show ?thesis by blast
qed

section \<open>Error classification\<close>







section \<open>The authentication gate\<close>

lemma replace_first_prefix:
  assumes "p \<noteq> []"
  shows "replace_first p r (p @ t) = r @ t"
proof -
  from assms obtain a p' where p: "p = a # p'" by (cases p) auto
  have "startsWith ((a # p') @ t) (a # p')" by (simp only: startsWith_iff) blast
  then show ?thesis by (simp add: p)
qed

lemma replace_first_absent: "\<not> str_includes v p \<Longrightarrow> replace_first p r v = v"
  by (induction v) auto

text \<open>Every handler but /connect begins with the guard and changes nothing when it fails.\<close>

lemma guard_rejects:
  assumes "auth_header r = Some h" and "\<not> validateToken tok h"
  shows "handle_request tok r st = (HttpError 401 ''Unauthorized'', st, [])"
  using assms
  by (cases r)
    (simp_all add: get_state_def post_operations_def post_operations_batch_def
      post_approve_def post_approve_all_def post_retry_def post_execute_def
      delete_operation_def delete_all_def list_endpoint_def)

text \<open>
  A request to a protected endpoint is answered 401 Unauthorized, with the state as
  before, when its \<open>Authorization\<close> header is absent or empty, is \<open>Bearer \<close> followed by
  anything but the token, or does not contain \<open>Bearer \<close> and is not the token.
\<close>

lemma well_formed_header_rejected:
  assumes "auth_header r = Some h"
    and "h = None \<or> h = Some []
         \<or> (\<exists>t. h = Some (''Bearer '' @ t) \<and> t \<noteq> tok)
         \<or> (\<exists>v. h = Some v \<and> \<not> str_includes v ''Bearer '' \<and> v \<noteq> tok)"
  shows "handle_request tok r st = (HttpError 401 ''Unauthorized'', st, [])"
proof -
  have "\<not> validateToken tok h"
    using assms(2) replace_first_prefix [of "''Bearer ''" "[]"]
    by (auto simp: validateToken_def falsy_def replace_first_absent)
  with assms(1) show ?thesis by (rule guard_rejects)
qed

text \<open>
  C7. The claim: a request to a protected endpoint whose \<open>Authorization\<close> header does not
  carry the minted token is answered 401 and changes nothing. \<open>validateToken\<close> removes
  the first \<open>Bearer \<close> wherever it stands in the header, not only at its start, and
  compares what is left with the token. With the token \<open>s3cret\<close>, the header
  \<open>s3cBearer ret\<close> does not contain the token, yet the guard accepts it, and
  \<open>DELETE /operations/all\<close> sent with it empties the store.
\<close>

theorem bearer_inside_token_accepted:
  "\<not> str_includes ''s3cBearer ret'' ''s3cret''
   \<and> replace_first ''Bearer '' [] ''s3cBearer ret'' = ''s3cret''
   \<and> validateToken ''s3cret'' (Some ''s3cBearer ret'')
   \<and> handle_request ''s3cret'' (DeleteAll (Some ''s3cBearer ret''))
         (example_state [example_op ''a'' Approved None])
       = (Success (RemovedCount 1), example_state [], [])"
  by code_simp

section \<open>Retry\<close>

text \<open>
  C8. For every authorised /retry request on a store whose ids are pairwise different:
  if the id is that of a stored operation, then, when the operation is failed, it becomes
  approved with its result cleared, all its other fields and all other operations
  unchanged, and otherwise (pending, approved, running or completed) the request fails
  with 400 and the state is unchanged; if the id is that of no stored operation (or the
  query has none) the request fails with 404 and the state is unchanged.
\<close>

theorem retry_outcomes:
  assumes "validateToken tok auth" and "distinct (map op_id (operations st))"
  shows "(\<forall>i < length (operations st). op_id (operations st ! i) = ident \<longrightarrow>
            handle_request tok (PostRetry auth (Some ident)) st =
              (if status (operations st ! i) = Failed
               then (Success (OperationData ((operations st ! i)\<lparr>status := Approved, result := None\<rparr>)),
                     st\<lparr>operations :=
                          (operations st)[i := (operations st ! i)\<lparr>status := Approved, result := None\<rparr>]\<rparr>,
                     [(ident, Failed, Approved)])
               else (HttpError 400 ''Only failed operations can be retried'', st, [])))
       \<and> ((\<forall>op \<in> set (operations st). q \<noteq> Some (op_id op)) \<longrightarrow>
            handle_request tok (PostRetry auth q) st =
              (HttpError 404 ''Operation not found'', st, []))"
proof (intro conjI allI impI)
  fix i
  assume "i < length (operations st)" and "op_id (operations st ! i) = ident"
  with assms findIndex_unique [of "operations st" i ident]
  show "handle_request tok (PostRetry auth (Some ident)) st =
              (if status (operations st ! i) = Failed
               then (Success (OperationData ((operations st ! i)\<lparr>status := Approved, result := None\<rparr>)),
                     st\<lparr>operations :=
                          (operations st)[i := (operations st ! i)\<lparr>status := Approved, result := None\<rparr>]\<rparr>,
                     [(ident, Failed, Approved)])
               else (HttpError 400 ''Only failed operations can be retried'', st, []))"
    by (simp add: post_retry_def Let_def)
next
  assume "\<forall>op \<in> set (operations st). q \<noteq> Some (op_id op)"
  then have "findIndex (has_id q) (operations st) = None"
    by (simp add: findIndex_None has_id_def)
  with assms(1) show "handle_request tok (PostRetry auth q) st =
      (HttpError 404 ''Operation not found'', st, [])"
    by (simp add: post_retry_def)
qed


theorem retry_outcomes_witness:
  "validateToken ''s3cret'' (Some ''Bearer s3cret'')
   \<and> handle_request ''s3cret'' (PostRetry (Some ''Bearer s3cret'') (Some ''b''))
       (example_state [example_op ''a'' Completed None,
          (example_op ''b'' Failed None)\<lparr>result := Some skipped_result\<rparr>])
     = (Success (OperationData (example_op ''b'' Approved None)),
        example_state [example_op ''a'' Completed None, example_op ''b'' Approved None],
        [(''b'', Failed, Approved)])
   \<and> handle_request ''s3cret'' (PostRetry (Some ''Bearer s3cret'') (Some ''a''))
       (example_state [example_op ''a'' Completed None,
          (example_op ''b'' Failed None)\<lparr>result := Some skipped_result\<rparr>])
     = (HttpError 400 ''Only failed operations can be retried'',
        example_state [example_op ''a'' Completed None,
          (example_op ''b'' Failed None)\<lparr>result := Some skipped_result\<rparr>], [])
   \<and> handle_request ''s3cret'' (PostRetry (Some ''Bearer s3cret'') (Some ''c''))
       (example_state [example_op ''a'' Completed None,
          (example_op ''b'' Failed None)\<lparr>result := Some skipped_result\<rparr>])
     = (HttpError 404 ''Operation not found'',
        example_state [example_op ''a'' Completed None,
          (example_op ''b'' Failed None)\<lparr>result := Some skipped_result\<rparr>], [])"
proof -
  let ?st = "example_state [example_op ''a'' Completed None,
          (example_op ''b'' Failed None)\<lparr>result := Some skipped_result\<rparr>]"
  have v: "validateToken ''s3cret'' (Some ''Bearer s3cret'')"
    by (simp add: validateToken_def falsy_def)
  have d: "distinct (map op_id (operations ?st))"
    by (simp add: example_state_def example_op_def)
  note r = retry_outcomes [OF v d]
  from r [of "''b''"] have "handle_request ''s3cret'' (PostRetry (Some ''Bearer s3cret'') (Some ''b'')) ?st
     = (Success (OperationData (example_op ''b'' Approved None)),
        example_state [example_op ''a'' Completed None, example_op ''b'' Approved None],
        [(''b'', Failed, Approved)])"
    by (simp add: example_state_def example_op_def All_less_Suc2)
  moreover from r [of "''a''"] have "handle_request ''s3cret'' (PostRetry (Some ''Bearer s3cret'') (Some ''a'')) ?st
     = (HttpError 400 ''Only failed operations can be retried'', ?st, [])"
    by (simp add: example_state_def example_op_def All_less_Suc2)
  moreover from r [of _ "Some ''c''"] have "handle_request ''s3cret'' (PostRetry (Some ''Bearer s3cret'') (Some ''c'')) ?st
     = (HttpError 404 ''Operation not found'', ?st, [])"
    by (simp add: example_state_def example_op_def)
  ultimately show ?thesis using v by simp
qed

end
